theory Spec2Isabelle
  imports Main "HOL-Library.Sublist"
begin

section \<open>Texts and the pattern language\<close>

text \<open>
  A text is a list of Unicode code points, as a Python \<^verbatim>\<open>str\<close> is. \<open>u\<close> turns a literal into
  a text.
\<close>

type_synonym ustring = "nat list"

definition u :: "string \<Rightarrow> ustring" where
  "u s = map of_char s"

text \<open>
  The patterns of the program use literals, a greedy and a lazy star and a greedy plus over
  a character class, the word boundary (for a given class of word characters) and a greedy
  optional group. A pattern is a list of atoms. \<open>rx_match\<close> is the backtracking matcher
  anchored at the current position: it tries the alternatives in the order of the pattern
  language (a greedy repetition the longest first, a lazy one the shortest first, an optional
  group first with the group) and returns the first success, as the text consumed by each
  atom and the text left. \<open>prev\<close> is the code point before the current position, which the
  word boundary reads.
\<close>

datatype atom = Lit nat | Star "nat \<Rightarrow> bool" | LazyStar "nat \<Rightarrow> bool"
  | Plus "nat \<Rightarrow> bool" | WordB "nat \<Rightarrow> bool" | Opt "atom list"

type_synonym rx_result = "ustring list \<times> ustring"

fun push :: "nat \<Rightarrow> rx_result \<Rightarrow> rx_result" where
  "push x ([], t) = ([[x]], t)"
| "push x (c # cs, t) = ((x # c) # cs, t)"

fun cap :: "ustring \<Rightarrow> rx_result \<Rightarrow> rx_result" where
  "cap w (cs, t) = (w # cs, t)"

fun regroup :: "nat \<Rightarrow> rx_result \<Rightarrow> rx_result" where
  "regroup n (cs, t) = (concat (take n cs) # drop n cs, t)"

definition at_boundary :: "(nat \<Rightarrow> bool) \<Rightarrow> nat option \<Rightarrow> ustring \<Rightarrow> bool" where
  "at_boundary word prev s =
     ((case prev of None \<Rightarrow> False | Some c \<Rightarrow> word c)
        \<noteq> (case s of [] \<Rightarrow> False | x # _ \<Rightarrow> word x))"

function rx_match :: "atom list \<Rightarrow> nat option \<Rightarrow> ustring \<Rightarrow> rx_result option" where
  "rx_match [] prev s = Some ([], s)"
| "rx_match (Lit c # r) prev s =
     (case s of [] \<Rightarrow> None
      | x # xs \<Rightarrow> if x = c then map_option (cap [x]) (rx_match r (Some x) xs) else None)"
| "rx_match (Star P # r) prev s =
     (case s of [] \<Rightarrow> map_option (cap []) (rx_match r prev s)
      | x # xs \<Rightarrow>
          if P x then
            (case rx_match (Star P # r) (Some x) xs of
               Some res \<Rightarrow> Some (push x res)
             | None \<Rightarrow> map_option (cap []) (rx_match r prev s))
          else map_option (cap []) (rx_match r prev s))"
| "rx_match (LazyStar P # r) prev s =
     (case rx_match r prev s of
        Some res \<Rightarrow> Some (cap [] res)
      | None \<Rightarrow>
          (case s of [] \<Rightarrow> None
           | x # xs \<Rightarrow>
               if P x then map_option (push x) (rx_match (LazyStar P # r) (Some x) xs)
               else None))"
| "rx_match (Plus P # r) prev s =
     (case s of [] \<Rightarrow> None
      | x # xs \<Rightarrow>
          if P x then map_option (push x) (rx_match (Star P # r) (Some x) xs) else None)"
| "rx_match (WordB word # r) prev s =
     (if at_boundary word prev s then map_option (cap []) (rx_match r prev s) else None)"
| "rx_match (Opt g # r) prev s =
     (case rx_match (g @ r) prev s of
        Some res \<Rightarrow> Some (regroup (length g) res)
      | None \<Rightarrow> map_option (cap []) (rx_match r prev s))"
  by pat_completeness auto
termination
  by (relation "(\<lambda>(r, p, s). length s) <*mlex*> measure (\<lambda>(r, p, s). size_list size r)")
     (auto simp: wf_mlex mlex_less mlex_leq)

text \<open>The atoms of a literal text.\<close>

definition lits :: "string \<Rightarrow> atom list" where
  "lits s = map Lit (u s)"

text \<open>The code point before the text left by a match: the last one consumed, if any.\<close>

definition last_char :: "nat option \<Rightarrow> ustring \<Rightarrow> nat option" where
  "last_char prev w = (if w = [] then prev else Some (last w))"

text \<open>
  \<^verbatim>\<open>pattern.search\<close>: the first position, from the left, at which the pattern matches.
\<close>

fun rx_search :: "atom list \<Rightarrow> nat option \<Rightarrow> ustring \<Rightarrow> rx_result option" where
  "rx_search p prev [] = rx_match p prev []"
| "rx_search p prev (x # xs) =
     (case rx_match p prev (x # xs) of
        Some res \<Rightarrow> Some res
      | None \<Rightarrow> rx_search p (Some x) xs)"

text \<open>
  \<^verbatim>\<open>pattern.findall\<close>: the matches found from left to right, none overlapping another; the
  scan goes on after the text a match consumed, or one code point further where nothing
  matched (or nothing was consumed; the patterns of the program never match the empty text).
\<close>

function rx_findall :: "atom list \<Rightarrow> nat option \<Rightarrow> ustring \<Rightarrow> ustring list list" where
  "rx_findall p prev s =
     (case rx_match p prev s of
        Some (caps, rest) \<Rightarrow>
          if length rest < length s then
            caps # rx_findall p (last_char prev (concat caps)) rest
          else (case s of [] \<Rightarrow> [caps] | x # xs \<Rightarrow> caps # rx_findall p (Some x) xs)
      | None \<Rightarrow> (case s of [] \<Rightarrow> [] | x # xs \<Rightarrow> rx_findall p (Some x) xs))"
  by pat_completeness auto
termination
  by (relation "measure (\<lambda>(p, prev, s). length s)") auto

declare rx_findall.simps [simp del]

section \<open>Values, errors and the platform\<close>

text \<open>
  The values a YAML document denotes. A mapping keeps its keys in insertion order, as a
  Python \<^verbatim>\<open>dict\<close> does.
\<close>

datatype yval = YNull | YBool bool | YInt int | YStr ustring | YList "yval list"
  | YMap "(ustring \<times> yval) list"

type_synonym pydict = "(ustring \<times> yval) list"

text \<open>Python's truth value of an object: what \<^verbatim>\<open>x or {}\<close> and \<^verbatim>\<open>if not x\<close> test.\<close>

fun truthy :: "yval \<Rightarrow> bool" where
  "truthy YNull = False"
| "truthy (YBool b) = b"
| "truthy (YInt i) = (i \<noteq> 0)"
| "truthy (YStr s) = (s \<noteq> [])"
| "truthy (YList xs) = (xs \<noteq> [])"
| "truthy (YMap kvs) = (kvs \<noteq> [])"

text \<open>
  The exceptions of the program, each with its message where the program or a library gives
  one. \<^verbatim>\<open>OSError\<close> stands for the errors of the operating system that have no class of their
  own here.
\<close>

datatype error = ValueError ustring | FileNotFoundError ustring | FileExistsError ustring
  | TypeError | RuntimeError ustring | OSError ustring | UnicodeDecodeError
  | UnicodeEncodeError

text \<open>
  Everything the program calls and does not define is a parameter of the model, so that what
  is proved holds whatever the libraries and the operating system do:
  \<^item> \<^verbatim>\<open>yaml.safe_load\<close>, which returns the value or fails with a diagnostic text, and
    \<^verbatim>\<open>yaml.dump\<close> with the options the program passes;
  \<^item> the Unicode database, for the white space and the word characters beyond ASCII;
  \<^item> the calls of \<^verbatim>\<open>pathlib\<close> on a file system of type \<open>'fs\<close>: \<^verbatim>\<open>Path.resolve\<close> on a list of path
    components (it can fail: a NUL in a component, a loop of symbolic links), \<^verbatim>\<open>Path.exists\<close>,
    \<^verbatim>\<open>Path.read_text\<close>, and the two that change the file system, \<^verbatim>\<open>Path.write_text\<close> and
    \<^verbatim>\<open>Path.mkdir(parents=True, exist_ok=True)\<close>, which return the file system they leave
    also when they fail.
\<close>

record 'fs platform =
  yaml_safe_load :: "ustring \<Rightarrow> ustring + yval"
  yaml_dump :: "yval \<Rightarrow> ustring"
  unicode_space :: "nat \<Rightarrow> bool"
  unicode_word :: "nat \<Rightarrow> bool"
  realpath :: "'fs \<Rightarrow> ustring list \<Rightarrow> error + ustring list"
  path_exists :: "'fs \<Rightarrow> ustring list \<Rightarrow> error + bool"
  read_text :: "'fs \<Rightarrow> ustring list \<Rightarrow> error + ustring"
  write_text :: "'fs \<Rightarrow> ustring list \<Rightarrow> ustring \<Rightarrow> (error + unit) \<times> 'fs"
  mkdir :: "'fs \<Rightarrow> ustring list \<Rightarrow> (error + unit) \<times> 'fs"

text \<open>
  The classes \<^verbatim>\<open>\s\<close> and \<^verbatim>\<open>\w\<close> of a pattern on \<^verbatim>\<open>str\<close>. Below 128, \<^verbatim>\<open>\s\<close> holds tab, line feed,
  vertical tab, form feed, carriage return, the four separators 0x1C to 0x1F and the blank,
  and \<^verbatim>\<open>\w\<close> holds the digits, the letters and the underscore; from 128 on the Unicode
  database decides.
\<close>

definition is_space :: "'fs platform \<Rightarrow> nat \<Rightarrow> bool" where
  "is_space pf c =
     (if c < 128 then c \<in> set [9, 10, 11, 12, 13, 28, 29, 30, 31, 32] else unicode_space pf c)"

definition is_word :: "'fs platform \<Rightarrow> nat \<Rightarrow> bool" where
  "is_word pf c =
     (if c < 128
      then (48 \<le> c \<and> c \<le> 57) \<or> (65 \<le> c \<and> c \<le> 90) \<or> c = 95 \<or> (97 \<le> c \<and> c \<le> 122)
      else unicode_word pf c)"

section \<open>Frontmatter: \<^verbatim>\<open>frontmatter_parser.py\<close>\<close>

record FrontmatterResult =
  frontmatter :: yval
  content :: ustring
  has_frontmatter :: bool

text \<open>\<^verbatim>\<open>FRONTMATTER_PATTERN = re.compile(r"^---\s*\n(.*?)\n---\s*\n", re.DOTALL)\<close>\<close>

definition FRONTMATTER_PATTERN :: "'fs platform \<Rightarrow> atom list" where
  "FRONTMATTER_PATTERN pf =
     lits ''---'' @ [Star (is_space pf)] @ lits ''\<newline>''
       @ [LazyStar (\<lambda>_. True)]
       @ lits ''\<newline>---'' @ [Star (is_space pf)] @ lits ''\<newline>''"

text \<open>
  \<open>parse\<close>: group 1 of the match is the text the lazy star consumed (the atom at index 5),
  and \<^verbatim>\<open>text[match.end():]\<close> is the text the match left.
\<close>

definition parse :: "'fs platform \<Rightarrow> ustring \<Rightarrow> error + FrontmatterResult" where
  "parse pf text =
     (case rx_match (FRONTMATTER_PATTERN pf) None text of
        None \<Rightarrow> Inr \<lparr>frontmatter = YMap [], content = text, has_frontmatter = False\<rparr>
      | Some (caps, rest) \<Rightarrow>
          (case yaml_safe_load pf (caps ! 5) of
             Inl e \<Rightarrow> Inl (ValueError (u ''Invalid YAML frontmatter: '' @ e))
           | Inr v \<Rightarrow>
               Inr \<lparr>frontmatter = (if truthy v then v else YMap []), content = rest,
                    has_frontmatter = True\<rparr>))"

definition dump :: "'fs platform \<Rightarrow> yval \<Rightarrow> ustring \<Rightarrow> ustring" where
  "dump pf fm body =
     (if \<not> truthy fm then body
      else u ''---\<newline>'' @ yaml_dump pf fm @ u ''---\<newline>\<newline>'' @ body)"

text \<open>
  \<^verbatim>\<open>{**a, **b}\<close>: the items of \<open>a\<close> and then those of \<open>b\<close> are stored into a new dictionary.
  Storing under a key that is present replaces the value in place; a new key goes to the end.
\<close>

definition dict_setitem :: "pydict \<Rightarrow> ustring \<times> yval \<Rightarrow> pydict" where
  "dict_setitem d kv =
     (if fst kv \<in> fst ` set d
      then map (\<lambda>(k, v). (k, if k = fst kv then snd kv else v)) d
      else d @ [kv])"

definition dict_merge :: "pydict \<Rightarrow> pydict \<Rightarrow> pydict" where
  "dict_merge a b = foldl dict_setitem [] (a @ b)"

text \<open>\<open>update\<close>: unpacking a value that is not a mapping raises \<^verbatim>\<open>TypeError\<close>.\<close>

definition update :: "'fs platform \<Rightarrow> ustring \<Rightarrow> pydict \<Rightarrow> error + ustring" where
  "update pf text fm =
     (case parse pf text of
        Inl e \<Rightarrow> Inl e
      | Inr result \<Rightarrow>
          (case frontmatter result of
             YMap old \<Rightarrow> Inr (dump pf (YMap (dict_merge old fm)) (content result))
           | _ \<Rightarrow> Inl TypeError))"

section \<open>The vault: \<^verbatim>\<open>vault_manager.py\<close>\<close>

subsection \<open>Paths\<close>

text \<open>
  A path is the list of its components below the file system's root. \<open>path_parts\<close> is
  what joining a relative path string to a path adds: the segments between separators,
  without the empty ones and the single dots (dot-dot segments stay).
\<close>

fun split_on :: "nat \<Rightarrow> ustring \<Rightarrow> ustring list" where
  "split_on d [] = [[]]"
| "split_on d (c # cs) =
     (if c = d then [] # split_on d cs
      else (case split_on d cs of [] \<Rightarrow> [[c]] | w # ws \<Rightarrow> (c # w) # ws))"

definition path_parts :: "ustring \<Rightarrow> ustring list" where
  "path_parts s = filter (\<lambda>w. w \<noteq> [] \<and> w \<noteq> u ''.'') (split_on (of_char CHR ''/'') s)"

record VaultManager =
  vault_path :: "ustring list"

text \<open>
  \<open>resolve_path\<close>: the call of \<^verbatim>\<open>resolve\<close> stands outside the \<^verbatim>\<open>try\<close>, so an error of the
  canonicalisation itself reaches the caller as it is.
\<close>

definition resolve_path ::
  "'fs platform \<Rightarrow> VaultManager \<Rightarrow> 'fs \<Rightarrow> ustring \<Rightarrow> error + ustring list"
where
  "resolve_path pf vm f filepath =
     (let fp = dropWhile (\<lambda>c. c = of_char CHR ''/'') filepath
      in case realpath pf f (vault_path vm @ path_parts fp) of
           Inl e \<Rightarrow> Inl e
         | Inr full_path \<Rightarrow>
             if prefix (vault_path vm) full_path then Inr full_path
             else Inl (ValueError (u ''Path traversal detected: '' @ fp @ u '' is outside vault'')))"

subsection \<open>Notes\<close>

definition read_note ::
  "'fs platform \<Rightarrow> VaultManager \<Rightarrow> 'fs \<Rightarrow> ustring \<Rightarrow> error + ustring"
where
  "read_note pf vm f filepath =
     (case resolve_path pf vm f filepath of
        Inl e \<Rightarrow> Inl e
      | Inr full_path \<Rightarrow>
          (case path_exists pf f full_path of
             Inl e \<Rightarrow> Inl e
           | Inr ex \<Rightarrow>
               if \<not> ex then Inl (FileNotFoundError (u ''Note not found: '' @ filepath))
               else read_text pf f full_path))"

definition create_note ::
  "'fs platform \<Rightarrow> VaultManager \<Rightarrow> 'fs \<Rightarrow> ustring \<Rightarrow> ustring \<Rightarrow> pydict option
     \<Rightarrow> (error + unit) \<times> 'fs"
where
  "create_note pf vm f filepath body fm =
     (case resolve_path pf vm f filepath of
        Inl e \<Rightarrow> (Inl e, f)
      | Inr full_path \<Rightarrow>
          (case path_exists pf f full_path of
             Inl e \<Rightarrow> (Inl e, f)
           | Inr ex \<Rightarrow>
               if ex then (Inl (FileExistsError (u ''Note already exists: '' @ filepath)), f)
               else (case mkdir pf f (butlast full_path) of
                       (Inl e, f') \<Rightarrow> (Inl e, f')
                     | (Inr _, f') \<Rightarrow>
                         (let full_text =
                                (case fm of
                                   None \<Rightarrow> body
                                 | Some d \<Rightarrow> if d \<noteq> [] then dump pf (YMap d) body else body)
                          in write_text pf f' full_path full_text))))"

definition edit_note ::
  "'fs platform \<Rightarrow> VaultManager \<Rightarrow> 'fs \<Rightarrow> ustring \<Rightarrow> ustring \<Rightarrow> (error + unit) \<times> 'fs"
where
  "edit_note pf vm f filepath body =
     (case resolve_path pf vm f filepath of
        Inl e \<Rightarrow> (Inl e, f)
      | Inr full_path \<Rightarrow>
          (case path_exists pf f full_path of
             Inl e \<Rightarrow> (Inl e, f)
           | Inr ex \<Rightarrow>
               if \<not> ex then (Inl (FileNotFoundError (u ''Note not found: '' @ filepath)), f)
               else (case read_text pf f full_path of
                       Inl e \<Rightarrow> (Inl e, f)
                     | Inr existing_text \<Rightarrow>
                         (case parse pf existing_text of
                            Inl e \<Rightarrow> (Inl e, f)
                          | Inr result \<Rightarrow>
                              (let new_text =
                                     (if has_frontmatter result
                                      then dump pf (frontmatter result) body
                                      else body)
                               in write_text pf f full_path new_text)))))"

definition read_frontmatter ::
  "'fs platform \<Rightarrow> VaultManager \<Rightarrow> 'fs \<Rightarrow> ustring \<Rightarrow> error + yval"
where
  "read_frontmatter pf vm f filepath =
     (case resolve_path pf vm f filepath of
        Inl e \<Rightarrow> Inl e
      | Inr full_path \<Rightarrow>
          (case path_exists pf f full_path of
             Inl e \<Rightarrow> Inl e
           | Inr ex \<Rightarrow>
               if \<not> ex then Inl (FileNotFoundError (u ''Note not found: '' @ filepath))
               else (case read_text pf f full_path of
                       Inl e \<Rightarrow> Inl e
                     | Inr text \<Rightarrow>
                         (case parse pf text of
                            Inl e \<Rightarrow> Inl e
                          | Inr result \<Rightarrow> Inr (frontmatter result)))))"

definition update_frontmatter ::
  "'fs platform \<Rightarrow> VaultManager \<Rightarrow> 'fs \<Rightarrow> ustring \<Rightarrow> pydict \<Rightarrow> (error + unit) \<times> 'fs"
where
  "update_frontmatter pf vm f filepath fm =
     (case resolve_path pf vm f filepath of
        Inl e \<Rightarrow> (Inl e, f)
      | Inr full_path \<Rightarrow>
          (case path_exists pf f full_path of
             Inl e \<Rightarrow> (Inl e, f)
           | Inr ex \<Rightarrow>
               if \<not> ex then (Inl (FileNotFoundError (u ''Note not found: '' @ filepath)), f)
               else (case read_text pf f full_path of
                       Inl e \<Rightarrow> (Inl e, f)
                     | Inr text \<Rightarrow>
                         (case update pf text fm of
                            Inl e \<Rightarrow> (Inl e, f)
                          | Inr new_content \<Rightarrow> write_text pf f full_path new_content))))"

subsection \<open>Scans of the vault\<close>

text \<open>
  A scan visits the files \<^verbatim>\<open>vault_path.rglob("*.md")\<close> yields, in the order it yields them.
  Each is given by its path relative to the vault and the text \<^verbatim>\<open>read_text\<close> returns for it,
  or \<open>None\<close> where reading it fails (the loop then goes on to the next file).
\<close>

type_synonym vault_scan = "(ustring \<times> ustring option) list"

text \<open>\<^verbatim>\<open>md_file.stem\<close>: the last component without its last suffix.\<close>

definition stem :: "ustring \<Rightarrow> ustring" where
  "stem rel_path =
     (let n = last (split_on (of_char CHR ''/'') rel_path);
          k = length (takeWhile (\<lambda>c. c \<noteq> of_char CHR ''.'') (rev n))
      in if k < length n \<and> 0 < length n - k - 1 \<and> 0 < k
         then take (length n - k - 1) n else n)"

record note_ref =
  path :: ustring
  name :: ustring

record backlink = note_ref +
  link_count :: nat

record tag_entry =
  tag :: ustring
  count :: nat
  examples :: "ustring list"

text \<open>
  \<^verbatim>\<open>rf"\[\[{re.escape(note_name)}(\|[^\]]+)?\]\]"\<close>: the escaped name is the pattern of its
  code points as literals.
\<close>

definition link_pattern :: "ustring \<Rightarrow> atom list" where
  "link_pattern note_name =
     lits ''[['' @ map Lit note_name
       @ [Opt [Lit (of_char CHR ''|''), Plus (\<lambda>c. c \<noteq> of_char CHR '']'')]] @ lits '']]''"

fun get_backlinks :: "vault_scan \<Rightarrow> ustring \<Rightarrow> backlink list" where
  "get_backlinks [] note_name = []"
| "get_backlinks ((rel_path, None) # files) note_name = get_backlinks files note_name"
| "get_backlinks ((rel_path, Some text) # files) note_name =
     (let matches = rx_findall (link_pattern note_name) None text
      in if matches \<noteq> []
         then \<lparr>path = rel_path, name = stem rel_path, link_count = length matches\<rparr>
                # get_backlinks files note_name
         else get_backlinks files note_name)"

text \<open>\<^verbatim>\<open>re.compile(r"#(\w+)")\<close>; \<^verbatim>\<open>findall\<close> returns group 1, the text of the plus.\<close>

definition tag_pattern :: "'fs platform \<Rightarrow> atom list" where
  "tag_pattern pf = lits ''#'' @ [Plus (is_word pf)]"

definition note_tags :: "'fs platform \<Rightarrow> ustring \<Rightarrow> ustring list" where
  "note_tags pf text = map (\<lambda>caps. caps ! 1) (rx_findall (tag_pattern pf) None text)"

type_synonym tag_data = "(ustring \<times> nat \<times> ustring list) list"

definition tag_step :: "ustring \<Rightarrow> tag_data \<Rightarrow> ustring \<Rightarrow> tag_data" where
  "tag_step rel_path d t =
     (let d1 = (if t \<notin> fst ` set d then d @ [(t, 0, [])] else d)
      in map (\<lambda>(k, c, ex).
                if k = t then (k, c + 1, if length ex < 3 then ex @ [rel_path] else ex)
                else (k, c, ex)) d1)"

fun scan_tags :: "'fs platform \<Rightarrow> tag_data \<Rightarrow> vault_scan \<Rightarrow> tag_data" where
  "scan_tags pf d [] = d"
| "scan_tags pf d ((rel_path, None) # files) = scan_tags pf d files"
| "scan_tags pf d ((rel_path, Some text) # files) =
     scan_tags pf (foldl (tag_step rel_path) d (note_tags pf text)) files"

text \<open>
  \<^verbatim>\<open>sorted(tag_data.items(), key=lambda x: -x[1]["count"])\<close>: \<^verbatim>\<open>sorted\<close> is a stable sort,
  and so is \<open>sort_key\<close>.
\<close>

definition list_tags :: "'fs platform \<Rightarrow> vault_scan \<Rightarrow> tag_entry list" where
  "list_tags pf files =
     map (\<lambda>(t, c, ex). \<lparr>tag = t, count = c, examples = ex\<rparr>)
       (sort_key (\<lambda>(t, c, ex). - int c) (scan_tags pf [] files))"

text \<open>\<^verbatim>\<open>rf"#\b{re.escape(clean_tag)}\b"\<close>\<close>

definition find_pattern :: "'fs platform \<Rightarrow> ustring \<Rightarrow> atom list" where
  "find_pattern pf clean_tag =
     lits ''#'' @ [WordB (is_word pf)] @ map Lit clean_tag @ [WordB (is_word pf)]"

fun find_scan :: "atom list \<Rightarrow> vault_scan \<Rightarrow> note_ref list" where
  "find_scan p [] = []"
| "find_scan p ((rel_path, None) # files) = find_scan p files"
| "find_scan p ((rel_path, Some text) # files) =
     (if rx_search p None text \<noteq> None
      then \<lparr>path = rel_path, name = stem rel_path\<rparr> # find_scan p files
      else find_scan p files)"

definition find_by_tag :: "'fs platform \<Rightarrow> vault_scan \<Rightarrow> ustring \<Rightarrow> note_ref list" where
  "find_by_tag pf files t =
     (let clean_tag = dropWhile (\<lambda>c. c = of_char CHR ''#'') t
      in find_scan (find_pattern pf clean_tag) files)"

section \<open>A concrete platform\<close>

text \<open>
  For running the model on concrete notes. The file system maps a canonical path to what is
  there: a directory, a text file with the text stored, or a file whose bytes are not UTF-8;
  the empty path is the root directory, and there are no symbolic links.
  \<^item> \<open>fs_realpath\<close> rejects a NUL in a component, as the operating system does; a dot-dot
    segment drops the component before it, and stays at the root.
  \<^item> \<open>fs_read_text\<close> reads with universal newlines: a carriage return, alone or before a
    line feed, is read as a line feed.
  \<^item> \<open>fs_write_text\<close> opens the file, which creates or empties it, and then encodes the
    text: a surrogate code point cannot be encoded, and the file is left empty. A name of
    more than 255 code points is refused when the file is opened.
  \<^item> \<open>flat_load\<close> and \<open>flat_dump\<close> are the YAML of mappings whose keys and values are plain
    one-line texts, one \<^verbatim>\<open>key: value\<close> line each.
  \<^item> The Unicode database is that of the code points below 256 for the word characters,
    and the white space of Unicode 14.
\<close>

datatype node = Dir | File ustring | Binary

type_synonym fs = "ustring list \<rightharpoonup> node"

fun lexical :: "ustring list \<Rightarrow> ustring list \<Rightarrow> ustring list" where
  "lexical acc [] = acc"
| "lexical acc (c # cs) =
     (if c = u ''..'' then lexical (butlast acc) cs else lexical (acc @ [c]) cs)"

definition fs_realpath :: "fs \<Rightarrow> ustring list \<Rightarrow> error + ustring list" where
  "fs_realpath f p =
     (if list_ex (\<lambda>c. 0 \<in> set c) p then Inl (ValueError (u ''embedded null byte''))
      else Inr (lexical [] p))"

definition fs_exists :: "fs \<Rightarrow> ustring list \<Rightarrow> error + bool" where
  "fs_exists f p = Inr (f p \<noteq> None \<or> p = [])"

definition is_dir :: "fs \<Rightarrow> ustring list \<Rightarrow> bool" where
  "is_dir f p = (case f p of Some Dir \<Rightarrow> True | Some _ \<Rightarrow> False | None \<Rightarrow> p = [])"

fun universal_newlines :: "ustring \<Rightarrow> ustring" where
  "universal_newlines [] = []"
| "universal_newlines [c] = [if c = 13 then 10 else c]"
| "universal_newlines (c # d # s) =
     (if c = 13 \<and> d = 10 then 10 # universal_newlines s
      else if c = 13 then 10 # universal_newlines (d # s)
      else c # universal_newlines (d # s))"

definition fs_read_text :: "fs \<Rightarrow> ustring list \<Rightarrow> error + ustring" where
  "fs_read_text f p =
     (case f p of
        Some (File c) \<Rightarrow> Inr (universal_newlines c)
      | Some Binary \<Rightarrow> Inl UnicodeDecodeError
      | Some Dir \<Rightarrow> Inl (OSError (u ''Is a directory''))
      | None \<Rightarrow> if p = [] then Inl (OSError (u ''Is a directory''))
                else Inl (FileNotFoundError (u ''No such file or directory'')))"

definition encodable :: "ustring \<Rightarrow> bool" where
  "encodable s = list_all (\<lambda>c. \<not> (55296 \<le> c \<and> c \<le> 57343)) s"

definition fs_write_text :: "fs \<Rightarrow> ustring list \<Rightarrow> ustring \<Rightarrow> (error + unit) \<times> fs" where
  "fs_write_text f p c =
     (if is_dir f p then (Inl (OSError (u ''Is a directory'')), f)
      else if \<not> is_dir f (butlast p) then
        (if f (butlast p) \<noteq> None then (Inl (OSError (u ''Not a directory'')), f)
         else (Inl (FileNotFoundError (u ''No such file or directory'')), f))
      else if 255 < length (last p) then (Inl (OSError (u ''File name too long'')), f)
      else if \<not> encodable c then (Inl UnicodeEncodeError, f(p \<mapsto> File []))
      else (Inr (), f(p \<mapsto> File c)))"

function fs_mkdir :: "fs \<Rightarrow> ustring list \<Rightarrow> (error + unit) \<times> fs" where
  "fs_mkdir f p =
     (if is_dir f p then (Inr (), f)
      else if f p \<noteq> None then (Inl (FileExistsError (u ''File exists'')), f)
      else if is_dir f (butlast p) then (Inr (), f(p \<mapsto> Dir))
      else if f (butlast p) \<noteq> None then (Inl (OSError (u ''Not a directory'')), f)
      else (case fs_mkdir f (butlast p) of
              (Inl e, f') \<Rightarrow> (Inl e, f')
            | (Inr _, f') \<Rightarrow> (Inr (), f'(p \<mapsto> Dir))))"
  by pat_completeness auto
termination
  by (relation "measure (\<lambda>(f, p). length p)") (auto simp: is_dir_def split: option.splits)

fun split_kv :: "ustring \<Rightarrow> (ustring \<times> ustring) option" where
  "split_kv [] = None"
| "split_kv (c # cs) =
     (if c = of_char CHR '':'' \<and> take 1 cs = u '' '' then Some ([], drop 1 cs)
      else map_option (\<lambda>(k, v). (c # k, v)) (split_kv cs))"

definition flat_load :: "ustring \<Rightarrow> ustring + yval" where
  "flat_load text =
     (let ls = filter (\<lambda>l. l \<noteq> []) (split_on 10 text)
      in if ls = [] then Inr YNull
         else if list_all (\<lambda>l. split_kv l \<noteq> None) ls
         then Inr (YMap (foldl dict_setitem []
                 (map (\<lambda>l. case split_kv l of
                              Some (k, v) \<Rightarrow> (k, YStr v)
                            | None \<Rightarrow> ([], YNull)) ls)))
         else if length ls = 1 then Inr (YStr (hd ls))
         else Inl (u ''could not find expected colon''))"

fun flat_scalar :: "yval \<Rightarrow> ustring" where
  "flat_scalar (YStr s) = s"
| "flat_scalar _ = u ''null''"

definition flat_dump :: "yval \<Rightarrow> ustring" where
  "flat_dump v =
     (case v of
        YMap kvs \<Rightarrow> concat (map (\<lambda>(k, x). k @ u '': '' @ flat_scalar x @ [10]) kvs)
      | _ \<Rightarrow> flat_scalar v @ [10])"

definition white_space :: "nat \<Rightarrow> bool" where
  "white_space c =
     (c \<in> set [133, 160, 5760, 8232, 8233, 8239, 8287, 12288] \<or> (8192 \<le> c \<and> c \<le> 8202))"

definition latin1_word :: "nat \<Rightarrow> bool" where
  "latin1_word c =
     (c \<in> set [170, 178, 179, 181, 185, 186, 188, 189, 190]
      \<or> (192 \<le> c \<and> c \<le> 214) \<or> (216 \<le> c \<and> c \<le> 246) \<or> (248 \<le> c \<and> c \<le> 255))"

definition plain :: "fs platform" where
  "plain = \<lparr>yaml_safe_load = flat_load, yaml_dump = flat_dump,
            unicode_space = white_space, unicode_word = latin1_word,
            realpath = fs_realpath, path_exists = fs_exists, read_text = fs_read_text,
            write_text = fs_write_text, mkdir = fs_mkdir\<rparr>"

text \<open>A vault of one note.\<close>

definition note_fs :: "ustring \<Rightarrow> fs" where
  "note_fs text = [[u ''vault''] \<mapsto> Dir, [u ''vault'', u ''n.md''] \<mapsto> File text]"

definition the_vault :: VaultManager where
  "the_vault = \<lparr>vault_path = [u ''vault'']\<rparr>"

section \<open>Specifications\<close>

text \<open>
  The texts an atom can consume: a successful match splits the text into the pieces its
  atoms consumed, each fitting its atom, and the text left.
\<close>

fun fits :: "atom \<Rightarrow> ustring \<Rightarrow> bool" where
  "fits (Lit c) w = (w = [c])"
| "fits (Star P) w = list_all P w"
| "fits (LazyStar P) w = list_all P w"
| "fits (Plus P) w = (w \<noteq> [] \<and> list_all P w)"
| "fits (WordB word) w = (w = [])"
| "fits (Opt g) w = True"

text \<open>
  A tag occurs in a text where a hash sign is followed by the tag, with a word boundary
  between the hash sign and the tag and another after the tag.
\<close>

definition tag_occurs :: "'fs platform \<Rightarrow> ustring \<Rightarrow> ustring \<Rightarrow> bool" where
  "tag_occurs pf clean_tag text \<longleftrightarrow>
     (\<exists>pre post. text = pre @ u ''#'' @ clean_tag @ post
        \<and> at_boundary (is_word pf) (Some (of_char CHR ''#'')) (clean_tag @ post)
        \<and> at_boundary (is_word pf) (last_char (Some (of_char CHR ''#'')) clean_tag) post)"

text \<open>
  A link to a note is the note's name between double brackets, or the name, a bar and an
  alias between double brackets, where the alias is not empty and holds no closing bracket.
  A text links to a note when it contains such a link.
\<close>

definition is_link :: "ustring \<Rightarrow> ustring \<Rightarrow> bool" where
  "is_link note_name w \<longleftrightarrow>
     w = u ''[['' @ note_name @ u '']]''
     \<or> (\<exists>alias. alias \<noteq> [] \<and> of_char CHR '']'' \<notin> set alias
           \<and> w = u ''[['' @ note_name @ u ''|'' @ alias @ u '']]'')"

definition links_to :: "ustring \<Rightarrow> ustring \<Rightarrow> bool" where
  "links_to note_name text \<longleftrightarrow> (\<exists>pre w post. text = pre @ w @ post \<and> is_link note_name w)"

text \<open>
  The tag index, as a table computed from the occurrences: \<open>occurrences\<close> lists the tags of
  the readable notes in scan order, each with the path of its note; \<open>first_seen\<close> keeps the
  first occurrence of each element; \<open>tag_table\<close> gives each tag, in the order of first
  encounter, the number of its occurrences and the paths of its first three occurrences.
\<close>

definition occurrences :: "'fs platform \<Rightarrow> vault_scan \<Rightarrow> (ustring \<times> ustring) list" where
  "occurrences pf files =
     concat (map (\<lambda>(rel_path, c). case c of
                    None \<Rightarrow> []
                  | Some text \<Rightarrow> map (\<lambda>t. (t, rel_path)) (note_tags pf text)) files)"

definition first_seen :: "'a list \<Rightarrow> 'a list" where
  "first_seen xs = rev (remdups (rev xs))"

definition tag_table :: "(ustring \<times> ustring) list \<Rightarrow> tag_data" where
  "tag_table occ =
     map (\<lambda>t. (t, length (filter (\<lambda>oc. fst oc = t) occ),
               take 3 (map snd (filter (\<lambda>oc. fst oc = t) occ))))
       (first_seen (map fst occ))"

definition entry_of :: "ustring \<times> nat \<times> ustring list \<Rightarrow> tag_entry" where
  "entry_of x = (case x of (t, c, ex) \<Rightarrow> \<lparr>tag = t, count = c, examples = ex\<rparr>)"





section \<open>Facts about the matcher\<close>

lemma rx_match_sound:
  "rx_match p prev s = Some (caps, rest) \<Longrightarrow> concat caps @ rest = s \<and> list_all2 fits p caps"
proof (induction p prev s arbitrary: caps rest rule: rx_match.induct)
  case (1 prev s)
  then show ?case by simp
next
  case (2 c r prev s)
  then show ?case by (auto split: list.splits if_splits)
next
  case (3 P r prev s)
  show ?case
  proof (cases s)
    case Nil
    with "3.IH"(1) "3.prems" show ?thesis by auto
  next
    case (Cons x xs)
    show ?thesis
    proof (cases "P x")
      case False
      with "3.IH"(4) "3.prems" Cons show ?thesis by auto
    next
      case True
      show ?thesis
      proof (cases "rx_match (Star P # r) (Some x) xs")
        case None
        with "3.IH"(3) "3.prems" Cons True show ?thesis by auto
      next
        case (Some res)
        obtain cs t where res: "res = (cs, t)" by (cases res)
        from "3.IH"(2)[OF Cons True, of cs t] Some res
        have ih: "concat cs @ t = xs" "list_all2 fits (Star P # r) cs" by auto
        from ih(2) obtain c cs' where cs: "cs = c # cs'" by (cases cs) auto
        from "3.prems" Cons True Some res cs have "caps = (x # c) # cs'" "rest = t" by auto
        with ih cs True show ?thesis using Cons by auto
      qed
    qed
  qed
next
  case (4 P r prev s)
  show ?case
  proof (cases "rx_match r prev s")
    case (Some res)
    with "4.IH"(1) "4.prems" show ?thesis by (cases res) auto
  next
    case None
    with "4.prems" obtain x xs where s: "s = x # xs" and px: "P x" 
      by (cases s) (auto split: if_splits)
    with "4.prems" None obtain res where r: "rx_match (LazyStar P # r) (Some x) xs = Some res"
      and cr: "(caps, rest) = push x res" by auto
    obtain cs t where res: "res = (cs, t)" by (cases res)
    from "4.IH"(2)[OF None s px, of cs t] r res
    have ih: "concat cs @ t = xs" "list_all2 fits (LazyStar P # r) cs" by auto
    from ih(2) obtain c cs' where cs: "cs = c # cs'" by (cases cs) auto
    with cr res have "caps = (x # c) # cs'" "rest = t" by auto
    with ih cs px s show ?thesis by auto
  qed
next
  case (5 P r prev s)
  from "5.prems" obtain x xs where s: "s = x # xs" and px: "P x" 
    by (cases s) (auto split: if_splits)
  with "5.prems" obtain res where r: "rx_match (Star P # r) (Some x) xs = Some res"
    and cr: "(caps, rest) = push x res" by auto
  obtain cs t where res: "res = (cs, t)" by (cases res)
  from "5.IH"[OF s px, of cs t] r res
  have ih: "concat cs @ t = xs" "list_all2 fits (Star P # r) cs" by auto
  from ih(2) obtain c cs' where cs: "cs = c # cs'" by (cases cs) auto
  with cr res have "caps = (x # c) # cs'" "rest = t" by auto
  with ih cs px s show ?case by auto
next
  case (6 word r prev s)
  then show ?case by (auto split: if_splits)
next
  case (7 g r prev s)
  show ?case
  proof (cases "rx_match (g @ r) prev s")
    case None
    with "7.IH"(2) "7.prems" show ?thesis by auto
  next
    case (Some res)
    obtain cs t where res: "res = (cs, t)" by (cases res)
    from "7.IH"(1)[of cs t] Some res
    have ih: "concat cs @ t = s" "list_all2 fits (g @ r) cs" by auto
    from ih(2) have len: "length cs = length g + length r" by (auto dest: list_all2_lengthD)
    from ih(2) have "list_all2 fits r (drop (length g) cs)"
      by (metis append_eq_conv_conj list_all2_append1)
    moreover have "concat (take (length g) cs) @ concat (drop (length g) cs) = concat cs"
      by (metis append_take_drop_id concat_append)
    moreover from "7.prems" Some res have "caps = concat (take (length g) cs) # drop (length g) cs" "rest = t"
      by auto
    ultimately show ?thesis using ih(1) by auto
  qed
qed

lemma rx_match_lits:
  "rx_match (map Lit w @ r) prev s =
     (if prefix w s
      then map_option (\<lambda>(cs, t). (map (\<lambda>c. [c]) w @ cs, t))
             (rx_match r (last_char prev w) (drop (length w) s))
      else None)"
proof (induction w arbitrary: prev s)
  case Nil
  show ?case by (cases "rx_match r prev s") (auto simp: last_char_def)
next
  case (Cons c w)
  show ?case
  proof (cases s)
    case Nil
    then show ?thesis by simp
  next
    case (Cons x xs)
    have lc: "last_char (Some c) w = last_char prev (c # w)" by (simp add: last_char_def)
    show ?thesis using Cons Cons.IH[of "Some c" xs] lc
      by (cases "rx_match r (last_char prev (c # w)) (drop (length w) xs)")
         (auto simp: option.map_comp comp_def split: prod.splits)
  qed
qed

lemma fm_match_shape:
  assumes "rx_match (FRONTMATTER_PATTERN pf) prev text = Some (caps, rest)"
  shows "\<exists>w1 g w2. list_all (is_space pf) w1 \<and> list_all (is_space pf) w2
           \<and> caps = [u ''-'', u ''-'', u ''-'', w1, u ''\<newline>'', g, u ''\<newline>'',
                     u ''-'', u ''-'', u ''-'', w2, u ''\<newline>'']
           \<and> text = u ''---'' @ w1 @ u ''\<newline>'' @ g @ u ''\<newline>---'' @ w2 @ u ''\<newline>'' @ rest"
proof -
  from rx_match_sound[OF assms]
  have c: "concat caps @ rest = text" and f: "list_all2 fits (FRONTMATTER_PATTERN pf) caps"
    by auto
  from f obtain w1 g w2 where
    "caps = [u ''-'', u ''-'', u ''-'', w1, u ''\<newline>'', g, u ''\<newline>'',
             u ''-'', u ''-'', u ''-'', w2, u ''\<newline>'']"
    "list_all (is_space pf) w1" "list_all (is_space pf) w2"
    unfolding FRONTMATTER_PATTERN_def lits_def u_def by (auto simp: list_all2_Cons1)
  with c show ?thesis by (auto simp: u_def)
qed

section \<open>The concrete platform at work\<close>

lemma plain_fields:
  "yaml_safe_load plain = flat_load" "yaml_dump plain = flat_dump"
  "unicode_space plain = white_space" "unicode_word plain = latin1_word"
  "realpath plain = fs_realpath" "path_exists plain = fs_exists"
  "read_text plain = fs_read_text" "write_text plain = fs_write_text"
  "mkdir plain = fs_mkdir"
  by (simp_all add: plain_def)

lemma resolve_in_vault:
  "resolve_path plain the_vault f (u ''n.md'') = Inr [u ''vault'', u ''n.md'']"
  "resolve_path plain the_vault f (u ''m.md'') = Inr [u ''vault'', u ''m.md'']"
  by (simp_all add: resolve_path_def plain_fields the_vault_def fs_realpath_def path_parts_def
        u_def)

lemma note_fs_note:
  "fs_exists (note_fs t) [u ''vault'', u ''n.md''] = Inr True"
  "fs_exists (note_fs t) [u ''vault'', u ''m.md''] = Inr False"
  "fs_read_text (note_fs t) [u ''vault'', u ''n.md''] = Inr (universal_newlines t)"
  by (simp_all add: fs_exists_def fs_read_text_def note_fs_def u_def)

lemma malformed_match:
  "rx_match (FRONTMATTER_PATTERN pf) None (u ''---\<newline>a: b\<newline>c\<newline>---\<newline>x'')
     = Some ([u ''-'', u ''-'', u ''-'', [], u ''\<newline>'', u ''a: b\<newline>c'', u ''\<newline>'',
              u ''-'', u ''-'', u ''-'', [], u ''\<newline>''], u ''x'')"
  by (simp add: FRONTMATTER_PATTERN_def lits_def u_def is_space_def)

lemma malformed_load: "flat_load (u ''a: b\<newline>c'') = Inl (u ''could not find expected colon'')"
  by (simp add: flat_load_def u_def)

text \<open>
  White space and word characters beyond ASCII: a no-break space after the opening dashes
  belongs to the opening line, and a tag goes on through accented letters.
\<close>

lemma nbsp_header_parses:
  "parse plain (u ''---'' @ [160] @ u ''\<newline>t: v\<newline>---\<newline>body'')
     = Inr \<lparr>frontmatter = YMap [(u ''t'', YStr (u ''v''))], content = u ''body'',
            has_frontmatter = True\<rparr>"
  by (simp add: parse_def FRONTMATTER_PATTERN_def lits_def u_def is_space_def plain_fields
        white_space_def flat_load_def dict_setitem_def)

lemma latin1_tags:
  "note_tags plain (u ''#caf'' @ [233] @ u '' and #'' @ [233] @ u ''t'' @ [233] @ u ''.'')
     = [u ''caf'' @ [233], [233] @ u ''t'' @ [233]]"
  by (simp add: note_tags_def tag_pattern_def lits_def u_def is_word_def plain_fields
        latin1_word_def rx_findall.simps last_char_def)

section \<open>Dictionaries\<close>








section \<open>Searching and finding all matches\<close>

lemma last_char_Cons: "last_char (Some x) w = last_char prev (x # w)"
  by (simp add: last_char_def)

lemma rx_search_iff:
  "rx_search p prev s \<noteq> None \<longleftrightarrow>
     (\<exists>pre post. s = pre @ post \<and> rx_match p (last_char prev pre) post \<noteq> None)"
proof (induction s arbitrary: prev)
  case Nil
  then show ?case by (simp add: last_char_def)
next
  case (Cons x xs)
  show ?case
  proof (cases "rx_match p prev (x # xs)")
    case (Some res)
    then have "rx_match p (last_char prev []) (x # xs) \<noteq> None" by (simp add: last_char_def)
    then have "\<exists>pre post. x # xs = pre @ post \<and> rx_match p (last_char prev pre) post \<noteq> None"
      by (metis append_Nil)
    with Some show ?thesis by simp
  next
    case None
    have "(\<exists>pre post. x # xs = pre @ post \<and> rx_match p (last_char prev pre) post \<noteq> None)
        \<longleftrightarrow> (\<exists>pre post. xs = pre @ post \<and> rx_match p (last_char (Some x) pre) post \<noteq> None)"
    proof
      assume "\<exists>pre post. x # xs = pre @ post \<and> rx_match p (last_char prev pre) post \<noteq> None"
      then obtain pre post where pp: "x # xs = pre @ post"
        "rx_match p (last_char prev pre) post \<noteq> None" by blast
      show "\<exists>pre post. xs = pre @ post \<and> rx_match p (last_char (Some x) pre) post \<noteq> None"
      proof (cases pre)
        case Nil
        with pp None show ?thesis by (simp add: last_char_def)
      next
        case (Cons y pre')
        with pp have "xs = pre' @ post" "y = x" by auto
        moreover from pp Cons \<open>y = x\<close> have "rx_match p (last_char (Some x) pre') post \<noteq> None"
          by (simp add: last_char_Cons[of x pre' prev])
        ultimately show ?thesis by blast
      qed
    next
      assume "\<exists>pre post. xs = pre @ post \<and> rx_match p (last_char (Some x) pre) post \<noteq> None"
      then obtain pre post where pp: "xs = pre @ post"
        "rx_match p (last_char (Some x) pre) post \<noteq> None" by blast
      then have "x # xs = (x # pre) @ post" "rx_match p (last_char prev (x # pre)) post \<noteq> None"
        by (simp_all add: last_char_Cons[of x pre prev])
      then show "\<exists>pre post. x # xs = pre @ post \<and> rx_match p (last_char prev pre) post \<noteq> None"
        by blast
    qed
    with None Cons.IH[of "Some x"] show ?thesis by simp
  qed
qed

lemma findall_nonempty:
  "rx_findall p prev s \<noteq> [] \<longleftrightarrow> rx_search p prev s \<noteq> None"
proof (induction s arbitrary: prev)
  case Nil
  show ?case by (subst rx_findall.simps) (auto split: option.splits)
next
  case (Cons x xs)
  show ?case using Cons.IH[of "Some x"]
    by (subst rx_findall.simps) (auto split: option.splits)
qed

lemma findall_set:
  "caps \<in> set (rx_findall p prev s) \<Longrightarrow> \<exists>pv u rest. rx_match p pv u = Some (caps, rest)"
proof (induction p prev s rule: rx_findall.induct)
  case (1 p prev s)
  show ?case
  proof (cases "rx_match p prev s")
    case None
    with "1.prems" obtain x xs where s: "s = x # xs" and m: "caps \<in> set (rx_findall p (Some x) xs)"
      by (subst (asm) rx_findall.simps) (auto split: list.splits)
    from "1.IH"(1)[OF None s m] show ?thesis .
  next
    case (Some res)
    obtain cs rest where res: "res = (cs, rest)" by (cases res)
    show ?thesis
    proof (cases "caps = cs")
      case True
      with Some res show ?thesis by blast
    next
      case False
      show ?thesis
      proof (cases "length rest < length s")
        case True
        with "1.prems" Some res False
        have m: "caps \<in> set (rx_findall p (last_char prev (concat cs)) rest)"
          by (subst (asm) rx_findall.simps) auto
        from "1.IH"(2)[OF Some res[symmetric] True m] show ?thesis .
      next
        case nl: False
        with "1.prems" Some res False obtain x xs where s: "s = x # xs"
          and m: "caps \<in> set (rx_findall p (Some x) xs)"
          by (subst (asm) rx_findall.simps) (auto split: list.splits)
        from "1.IH"(3)[OF Some res[symmetric] nl s m] show ?thesis .
      qed
    qed
  qed
qed

section \<open>Parsing a text without a header block\<close>

text \<open>
  Claim C5. A header block at the start of a text is an opening line of three dashes and
  optional white space, the header content, and a closing line of three dashes and optional
  white space that ends in a newline. For every text that cannot be split in this way,
  \<open>parse\<close> returns no frontmatter: empty metadata, the whole text as content, and
  \<open>has_frontmatter\<close> false. A closing delimiter that no newline follows is no match: the text
  \<^verbatim>\<open>---\ntitle: Test\n---Content\<close> parses without frontmatter, on every platform.
\<close>

theorem parse_without_header:
  "((\<forall>w1 g w2 rest. list_all (is_space pf) w1 \<and> list_all (is_space pf) w2 \<longrightarrow>
        text \<noteq> u ''---'' @ w1 @ u ''\<newline>'' @ g @ u ''\<newline>---'' @ w2 @ u ''\<newline>'' @ rest)
     \<longrightarrow> parse pf text = Inr \<lparr>frontmatter = YMap [], content = text, has_frontmatter = False\<rparr>)
   \<and> parse pf (u ''---\<newline>title: Test\<newline>---Content'')
       = Inr \<lparr>frontmatter = YMap [], content = u ''---\<newline>title: Test\<newline>---Content'',
              has_frontmatter = False\<rparr>"
proof (intro conjI impI)
  assume no: "\<forall>w1 g w2 rest. list_all (is_space pf) w1 \<and> list_all (is_space pf) w2 \<longrightarrow>
        text \<noteq> u ''---'' @ w1 @ u ''\<newline>'' @ g @ u ''\<newline>---'' @ w2 @ u ''\<newline>'' @ rest"
  have "rx_match (FRONTMATTER_PATTERN pf) None text = None"
  proof (cases "rx_match (FRONTMATTER_PATTERN pf) None text")
    case (Some res)
    obtain caps rest where "res = (caps, rest)" by (cases res)
    with Some fm_match_shape[of pf None "text" caps rest] no show ?thesis by blast
  qed simp
  then show "parse pf text = Inr \<lparr>frontmatter = YMap [], content = text, has_frontmatter = False\<rparr>"
    by (simp add: parse_def)
next
  have "rx_match (FRONTMATTER_PATTERN pf) None (u ''---\<newline>title: Test\<newline>---Content'') = None"
    by (simp add: FRONTMATTER_PATTERN_def lits_def u_def is_space_def)
  then show "parse pf (u ''---\<newline>title: Test\<newline>---Content'')
       = Inr \<lparr>frontmatter = YMap [], content = u ''---\<newline>title: Test\<newline>---Content'',
              has_frontmatter = False\<rparr>"
    by (simp add: parse_def)
qed

text \<open>The theorem at the text \<^verbatim>\<open># Just Content\<close>, which starts with no dash.\<close>

theorem parse_without_header_witness:
  "parse plain (u ''# Just Content'')
     = Inr \<lparr>frontmatter = YMap [], content = u ''# Just Content'', has_frontmatter = False\<rparr>"
proof -
  have "\<forall>w1 g w2 rest. list_all (is_space plain) w1 \<and> list_all (is_space plain) w2 \<longrightarrow>
        u ''# Just Content'' \<noteq> u ''---'' @ w1 @ u ''\<newline>'' @ g @ u ''\<newline>---'' @ w2 @ u ''\<newline>'' @ rest"
    by (simp add: u_def)
  with parse_without_header[of plain "u ''# Just Content''"] show ?thesis by blast
qed

section \<open>A malformed header\<close>

text \<open>
  Claim C9. When the header block matches at the start of a text and the YAML library rejects
  the header content (group 1 of the match) with a diagnostic, \<open>parse\<close> raises \<^verbatim>\<open>ValueError\<close>
  with the message \<^verbatim>\<open>Invalid YAML frontmatter: \<close> followed by the diagnostic. Every operation
  that parses the header of a note from which such a text is read raises the same error to
  its caller and leaves the file system as it was: \<open>update\<close>, \<open>read_frontmatter\<close>, \<open>edit_note\<close>
  and \<open>update_frontmatter\<close>.
\<close>

theorem invalid_yaml_propagates:
  assumes "rx_match (FRONTMATTER_PATTERN pf) None text = Some (caps, rest)"
      and "yaml_safe_load pf (caps ! 5) = Inl diag"
      and "resolve_path pf vm f filepath = Inr full_path"
      and "path_exists pf f full_path = Inr True"
      and "read_text pf f full_path = Inr text"
  shows "parse pf text = Inl (ValueError (u ''Invalid YAML frontmatter: '' @ diag))
       \<and> update pf text fm = Inl (ValueError (u ''Invalid YAML frontmatter: '' @ diag))
       \<and> read_frontmatter pf vm f filepath
            = Inl (ValueError (u ''Invalid YAML frontmatter: '' @ diag))
       \<and> edit_note pf vm f filepath body
            = (Inl (ValueError (u ''Invalid YAML frontmatter: '' @ diag)), f)
       \<and> update_frontmatter pf vm f filepath fm
            = (Inl (ValueError (u ''Invalid YAML frontmatter: '' @ diag)), f)"
proof -
  have p: "parse pf text = Inl (ValueError (u ''Invalid YAML frontmatter: '' @ diag))"
    using assms(1,2) by (simp add: parse_def)
  show ?thesis using p assms(3,4,5)
    by (simp add: update_def read_frontmatter_def edit_note_def update_frontmatter_def)
qed

text \<open>
  The theorem at a note whose header holds a mapping line and then a line without a colon.
\<close>

theorem invalid_yaml_propagates_witness:
  "edit_note plain the_vault (note_fs (u ''---\<newline>a: b\<newline>c\<newline>---\<newline>x'')) (u ''n.md'') (u ''new'')
     = (Inl (ValueError (u ''Invalid YAML frontmatter: could not find expected colon'')),
        note_fs (u ''---\<newline>a: b\<newline>c\<newline>---\<newline>x''))"
proof -
  let ?t = "u ''---\<newline>a: b\<newline>c\<newline>---\<newline>x''"
  have l: "yaml_safe_load plain
      ([u ''-'', u ''-'', u ''-'', [], u ''\<newline>'', u ''a: b\<newline>c'', u ''\<newline>'',
              u ''-'', u ''-'', u ''-'', [], u ''\<newline>''] ! 5)
      = Inl (u ''could not find expected colon'')"
    by (simp add: plain_fields malformed_load)
  have e: "path_exists plain (note_fs ?t) [u ''vault'', u ''n.md''] = Inr True"
    by (simp add: plain_fields note_fs_note)
  have r: "read_text plain (note_fs ?t) [u ''vault'', u ''n.md''] = Inr ?t"
    by (simp add: plain_fields note_fs_note) (simp add: u_def)
  from invalid_yaml_propagates[OF malformed_match l resolve_in_vault(1) e r, of _ "u ''new''"]
  show ?thesis by (simp add: u_def)
qed

section \<open>Path resolution\<close>

text \<open>
  Claim C1 as stated fails: the canonicalisation itself can fail, outside the \<^verbatim>\<open>try\<close>, and
  then \<open>resolve_path\<close> neither returns a path nor raises the error of a path traversal. The
  path \<^verbatim>\<open>a<NUL>b\<close> joins to a path below the vault root, and \<open>resolve_path\<close> fails with the
  \<^verbatim>\<open>ValueError\<close> of the embedded null byte.
\<close>

theorem resolve_path_null_byte:
  "resolve_path plain the_vault (note_fs []) (u ''a'' @ [0] @ u ''b'')
     = Inl (ValueError (u ''embedded null byte''))
   \<and> vault_path the_vault @ path_parts (u ''a'' @ [0] @ u ''b'') = [u ''vault'', u ''a'' @ [0] @ u ''b'']
   \<and> prefix (vault_path the_vault) [u ''vault'', u ''a'' @ [0] @ u ''b'']"
  by (simp add: resolve_path_def plain_fields the_vault_def fs_realpath_def path_parts_def u_def)

text \<open>
  Claim C1, amended. \<open>resolve_path\<close> strips the leading separators of its argument, joins the
  rest to the vault root and canonicalises. When the canonicalisation fails, its error
  reaches the caller as it is. When it succeeds, whatever it does with dot-dot segments,
  absolute-looking inputs and symbolic links, \<open>resolve_path\<close> fails if and only if the
  canonical path is neither the vault root nor below it, then with the \<^verbatim>\<open>ValueError\<close> of a path
  traversal, and otherwise returns the canonical path, which is the root or below it. The
  check comes before any access to the target: when \<open>resolve_path\<close> fails, every operation on
  a note returns that error and leaves the file system as it was.
\<close>

theorem resolve_path_confined:
  "(realpath pf f (vault_path vm @ path_parts (dropWhile (\<lambda>c. c = of_char CHR ''/'') p)) = Inl e
      \<longrightarrow> resolve_path pf vm f p = Inl e)
   \<and> (realpath pf f (vault_path vm @ path_parts (dropWhile (\<lambda>c. c = of_char CHR ''/'') p))
         = Inr canon \<longrightarrow>
         ((\<exists>e'. resolve_path pf vm f p = Inl e') \<longleftrightarrow> \<not> prefix (vault_path vm) canon)
       \<and> (\<not> prefix (vault_path vm) canon \<longrightarrow>
            resolve_path pf vm f p
              = Inl (ValueError (u ''Path traversal detected: ''
                       @ dropWhile (\<lambda>c. c = of_char CHR ''/'') p @ u '' is outside vault'')))
       \<and> (prefix (vault_path vm) canon \<longrightarrow> resolve_path pf vm f p = Inr canon))
   \<and> (resolve_path pf vm f p = Inl e \<longrightarrow>
         read_note pf vm f p = Inl e
         \<and> read_frontmatter pf vm f p = Inl e
         \<and> create_note pf vm f p body fm = (Inl e, f)
         \<and> edit_note pf vm f p body = (Inl e, f)
         \<and> update_frontmatter pf vm f p d = (Inl e, f))"
  by (auto simp: resolve_path_def Let_def read_note_def read_frontmatter_def create_note_def
        edit_note_def update_frontmatter_def split: if_splits)

text \<open>
  The theorem at \<^verbatim>\<open>../outside.md\<close>, which is rejected, at \<^verbatim>\<open>Daily/2024-01-01.md\<close>, which
  resolves below the root, and at a path with a NUL.
\<close>

theorem resolve_path_confined_witness:
  "read_note plain the_vault (note_fs (u ''x'')) (u ''../outside.md'')
     = Inl (ValueError (u ''Path traversal detected: ../outside.md is outside vault''))
   \<and> resolve_path plain the_vault (note_fs (u ''x'')) (u ''Daily/2024-01-01.md'')
     = Inr [u ''vault'', u ''Daily'', u ''2024-01-01.md'']
   \<and> read_note plain the_vault (note_fs (u ''x'')) (u ''a'' @ [0] @ u ''b'')
     = Inl (ValueError (u ''embedded null byte''))"
proof -
  let ?f = "note_fs (u ''x'')"
  let ?join = "\<lambda>p. vault_path the_vault @ path_parts (dropWhile (\<lambda>c. c = of_char CHR ''/'') p)"
  have a: "realpath plain ?f (?join (u ''../outside.md'')) = Inr [u ''outside.md'']"
    by (simp add: plain_fields the_vault_def fs_realpath_def path_parts_def u_def)
  have an: "\<not> prefix (vault_path the_vault) [u ''outside.md'']"
    by (simp add: the_vault_def u_def)
  have b: "realpath plain ?f (?join (u ''Daily/2024-01-01.md''))
      = Inr [u ''vault'', u ''Daily'', u ''2024-01-01.md'']"
    by (simp add: plain_fields the_vault_def fs_realpath_def path_parts_def u_def)
  have bp: "prefix (vault_path the_vault) [u ''vault'', u ''Daily'', u ''2024-01-01.md'']"
    by (simp add: the_vault_def)
  have c: "realpath plain ?f (?join (u ''a'' @ [0] @ u ''b'')) = Inl (ValueError (u ''embedded null byte''))"
    by (simp add: plain_fields the_vault_def fs_realpath_def path_parts_def u_def)
  note t1 = resolve_path_confined[of plain ?f the_vault "u ''../outside.md''" _ "[u ''outside.md'']"]
  from t1 a an have r1: "resolve_path plain the_vault ?f (u ''../outside.md'')
      = Inl (ValueError (u ''Path traversal detected: ''
               @ dropWhile (\<lambda>c. c = of_char CHR ''/'') (u ''../outside.md'') @ u '' is outside vault''))"
    by blast
  with resolve_path_confined[of plain ?f the_vault "u ''../outside.md''"]
  have 1: "read_note plain the_vault ?f (u ''../outside.md'')
      = Inl (ValueError (u ''Path traversal detected: ''
               @ dropWhile (\<lambda>c. c = of_char CHR ''/'') (u ''../outside.md'') @ u '' is outside vault''))"
    by blast
  from resolve_path_confined[of plain ?f the_vault "u ''Daily/2024-01-01.md''" _
         "[u ''vault'', u ''Daily'', u ''2024-01-01.md'']"] b bp
  have 2: "resolve_path plain the_vault ?f (u ''Daily/2024-01-01.md'')
     = Inr [u ''vault'', u ''Daily'', u ''2024-01-01.md'']"
    by blast
  from resolve_path_confined[of plain ?f the_vault "u ''a'' @ [0] @ u ''b''"
         "ValueError (u ''embedded null byte'')"] c
  have "resolve_path plain the_vault ?f (u ''a'' @ [0] @ u ''b'')
      = Inl (ValueError (u ''embedded null byte''))"
    by blast
  with resolve_path_confined[of plain ?f the_vault "u ''a'' @ [0] @ u ''b''"]
  have 3: "read_note plain the_vault ?f (u ''a'' @ [0] @ u ''b'')
     = Inl (ValueError (u ''embedded null byte''))"
    by blast
  from 1 have one: "read_note plain the_vault ?f (u ''../outside.md'')
     = Inl (ValueError (u ''Path traversal detected: ../outside.md is outside vault''))"
    by (simp add: u_def)
  from one 2 3 show ?thesis by blast
qed

section \<open>Validation before the write\<close>

text \<open>
  Claim C10 as stated fails: an error of the write itself can leave the target modified.
  \<^verbatim>\<open>write_text\<close> opens the file, which empties it, before it encodes the text; a body with a
  surrogate code point cannot be encoded, so \<open>edit_note\<close> raises \<^verbatim>\<open>UnicodeEncodeError\<close> and the
  note that held \<^verbatim>\<open>x\<close> is left empty.
\<close>

theorem failed_write_empties_note:
  "edit_note plain the_vault (note_fs (u ''x'')) (u ''n.md'') [55296]
     = (Inl UnicodeEncodeError, note_fs [])
   \<and> note_fs (u ''x'') [u ''vault'', u ''n.md''] = Some (File (u ''x''))
   \<and> note_fs [] [u ''vault'', u ''n.md''] = Some (File [])"
proof -
  have p: "parse plain (u ''x'') = Inr \<lparr>frontmatter = YMap [], content = u ''x'', has_frontmatter = False\<rparr>"
    by (simp add: parse_def FRONTMATTER_PATTERN_def lits_def u_def)
  have w: "fs_write_text (note_fs (u ''x'')) [u ''vault'', u ''n.md''] [55296]
      = (Inl UnicodeEncodeError, note_fs [])"
    by (simp add: fs_write_text_def is_dir_def note_fs_def encodable_def u_def)
  have "edit_note plain the_vault (note_fs (u ''x'')) (u ''n.md'') [55296]
     = (Inl UnicodeEncodeError, note_fs [])"
    using p w
    by (simp add: edit_note_def resolve_in_vault plain_fields note_fs_note)
       (simp add: u_def plain_fields)
  then show ?thesis by (simp add: note_fs_def)
qed

text \<open>
  Claim C10, amended. \<open>create_note\<close>, \<open>edit_note\<close> and \<open>update_frontmatter\<close> validate before
  they change anything. When the path does not resolve, when the existence test fails, when
  the note exists already (\<open>create_note\<close>) or does not exist (\<open>edit_note\<close>,
  \<open>update_frontmatter\<close>), when the note cannot be read and when its header does not parse,
  the operation raises the error and the file system is the one before the call. The write
  of the new text is the last step: whatever an operation returns, either the file system is
  unchanged, or the outcome is the outcome of its one call of \<^verbatim>\<open>write_text\<close> on the resolved
  path, for \<open>create_note\<close> after its call of \<^verbatim>\<open>mkdir\<close>, or it is the failure of that \<^verbatim>\<open>mkdir\<close>.
\<close>

theorem validation_precedes_write:
  "(resolve_path pf vm f p = Inl e \<longrightarrow>
        create_note pf vm f p body fm = (Inl e, f)
      \<and> edit_note pf vm f p body = (Inl e, f)
      \<and> update_frontmatter pf vm f p d = (Inl e, f))
   \<and> (resolve_path pf vm f p = Inr full_path \<longrightarrow>
        (path_exists pf f full_path = Inl e \<longrightarrow>
            create_note pf vm f p body fm = (Inl e, f)
          \<and> edit_note pf vm f p body = (Inl e, f)
          \<and> update_frontmatter pf vm f p d = (Inl e, f))
      \<and> (path_exists pf f full_path = Inr True \<longrightarrow>
            create_note pf vm f p body fm
              = (Inl (FileExistsError (u ''Note already exists: '' @ p)), f))
      \<and> (path_exists pf f full_path = Inr False \<longrightarrow>
            edit_note pf vm f p body = (Inl (FileNotFoundError (u ''Note not found: '' @ p)), f)
          \<and> update_frontmatter pf vm f p d
              = (Inl (FileNotFoundError (u ''Note not found: '' @ p)), f))
      \<and> (path_exists pf f full_path = Inr True \<and> read_text pf f full_path = Inl e \<longrightarrow>
            edit_note pf vm f p body = (Inl e, f)
          \<and> update_frontmatter pf vm f p d = (Inl e, f))
      \<and> (path_exists pf f full_path = Inr True \<and> read_text pf f full_path = Inr old
            \<and> parse pf old = Inl e \<longrightarrow>
            edit_note pf vm f p body = (Inl e, f)
          \<and> update_frontmatter pf vm f p d = (Inl e, f)))
   \<and> (edit_note pf vm f p body = (r, f') \<longrightarrow>
        f' = f \<or> (\<exists>full t. resolve_path pf vm f p = Inr full
                     \<and> (r, f') = write_text pf f full t))
   \<and> (update_frontmatter pf vm f p d = (r, f') \<longrightarrow>
        f' = f \<or> (\<exists>full t. resolve_path pf vm f p = Inr full
                     \<and> (r, f') = write_text pf f full t))
   \<and> (create_note pf vm f p body fm = (r, f') \<longrightarrow>
        f' = f
        \<or> (\<exists>full e'. resolve_path pf vm f p = Inr full
               \<and> mkdir pf f (butlast full) = (Inl e', f') \<and> r = Inl e')
        \<or> (\<exists>full f1 t. resolve_path pf vm f p = Inr full
               \<and> mkdir pf f (butlast full) = (Inr (), f1)
               \<and> (r, f') = write_text pf f1 full t))"
proof (intro conjI impI)
  assume "edit_note pf vm f p body = (r, f')"
  then show "f' = f \<or> (\<exists>full t. resolve_path pf vm f p = Inr full
                     \<and> (r, f') = write_text pf f full t)"
    by (auto simp: edit_note_def Let_def split: sum.splits if_splits) metis+
next
  assume "update_frontmatter pf vm f p d = (r, f')"
  then show "f' = f \<or> (\<exists>full t. resolve_path pf vm f p = Inr full
                     \<and> (r, f') = write_text pf f full t)"
    by (auto simp: update_frontmatter_def split: sum.splits if_splits) metis+
next
  assume a: "create_note pf vm f p body fm = (r, f')"
  show "f' = f
        \<or> (\<exists>full e'. resolve_path pf vm f p = Inr full
               \<and> mkdir pf f (butlast full) = (Inl e', f') \<and> r = Inl e')
        \<or> (\<exists>full f1 t. resolve_path pf vm f p = Inr full
               \<and> mkdir pf f (butlast full) = (Inr (), f1)
               \<and> (r, f') = write_text pf f1 full t)"
  proof (cases "resolve_path pf vm f p")
    case (Inl e0)
    with a show ?thesis by (simp add: create_note_def)
  next
    case (Inr full)
    show ?thesis
    proof (cases "path_exists pf f full")
      case (Inl e0)
      with a Inr show ?thesis by (simp add: create_note_def)
    next
      case ex: (Inr b)
      show ?thesis
      proof (cases b)
        case True
        with a Inr ex show ?thesis by (simp add: create_note_def)
      next
        case False
        obtain r0 f0 where m: "mkdir pf f (butlast full) = (r0, f0)"
          by (cases "mkdir pf f (butlast full)")
        show ?thesis
        proof (cases r0)
          case (Inl e0)
          with a Inr ex False m have "r = Inl e0" "f' = f0" by (simp_all add: create_note_def)
          with m Inl \<open>resolve_path pf vm f p = Inr full\<close> show ?thesis by blast
        next
          case r0: (Inr x)
          define t where "t = (case fm of None \<Rightarrow> body
                | Some d \<Rightarrow> if d \<noteq> [] then dump pf (YMap d) body else body)"
          from a Inr ex False m r0 have "(r, f') = write_text pf f0 full t"
            by (simp add: create_note_def t_def)
          moreover from m r0 have "mkdir pf f (butlast full) = (Inr (), f0)" by simp
          ultimately show ?thesis using \<open>resolve_path pf vm f p = Inr full\<close> by blast
        qed
      qed
    qed
  qed
qed (simp_all add: create_note_def edit_note_def update_frontmatter_def update_def)

text \<open>
  The theorem at a note that exists already, at a note that does not exist, and at a note
  with a malformed header.
\<close>

theorem validation_precedes_write_witness:
  "create_note plain the_vault (note_fs (u ''x'')) (u ''n.md'') (u ''new'') None
     = (Inl (FileExistsError (u ''Note already exists: n.md'')), note_fs (u ''x''))
   \<and> edit_note plain the_vault (note_fs (u ''x'')) (u ''m.md'') (u ''new'')
     = (Inl (FileNotFoundError (u ''Note not found: m.md'')), note_fs (u ''x''))
   \<and> update_frontmatter plain the_vault (note_fs (u ''---\<newline>a: b\<newline>c\<newline>---\<newline>x''))
        (u ''n.md'') [(u ''k'', YStr (u ''v''))]
     = (Inl (ValueError (u ''Invalid YAML frontmatter: could not find expected colon'')),
        note_fs (u ''---\<newline>a: b\<newline>c\<newline>---\<newline>x''))"
proof -
  let ?bad = "u ''---\<newline>a: b\<newline>c\<newline>---\<newline>x''"
  have e1: "path_exists plain (note_fs t) [u ''vault'', u ''n.md''] = Inr True" for t
    by (simp add: plain_fields note_fs_note)
  have e2: "path_exists plain (note_fs t) [u ''vault'', u ''m.md''] = Inr False" for t
    by (simp add: plain_fields note_fs_note)
  have rd: "read_text plain (note_fs ?bad) [u ''vault'', u ''n.md''] = Inr ?bad"
    by (simp add: plain_fields note_fs_note) (simp add: u_def)
  have pb: "parse plain ?bad
      = Inl (ValueError (u ''Invalid YAML frontmatter: could not find expected colon''))"
    by (simp add: parse_def malformed_match plain_fields malformed_load) (simp add: u_def)
  note t1 = validation_precedes_write[where pf = plain and vm = the_vault and f = "note_fs (u ''x'')"
      and p = "u ''n.md''" and full_path = "[u ''vault'', u ''n.md'']" and body = "u ''new''"
      and fm = None]
  from t1 resolve_in_vault(1) e1
  have 1: "create_note plain the_vault (note_fs (u ''x'')) (u ''n.md'') (u ''new'') None
     = (Inl (FileExistsError (u ''Note already exists: '' @ u ''n.md'')), note_fs (u ''x''))"
    by blast
  note t2 = validation_precedes_write[where pf = plain and vm = the_vault and f = "note_fs (u ''x'')"
      and p = "u ''m.md''" and full_path = "[u ''vault'', u ''m.md'']" and body = "u ''new''"]
  from t2 resolve_in_vault(2) e2
  have 2: "edit_note plain the_vault (note_fs (u ''x'')) (u ''m.md'') (u ''new'')
     = (Inl (FileNotFoundError (u ''Note not found: '' @ u ''m.md'')), note_fs (u ''x''))"
    by blast
  note t3 = validation_precedes_write[where pf = plain and vm = the_vault and f = "note_fs ?bad"
      and p = "u ''n.md''" and full_path = "[u ''vault'', u ''n.md'']" and old = ?bad
      and e = "ValueError (u ''Invalid YAML frontmatter: could not find expected colon'')"
      and d = "[(u ''k'', YStr (u ''v''))]"]
  from t3 resolve_in_vault(1) e1 rd pb
  have 3: "update_frontmatter plain the_vault (note_fs ?bad) (u ''n.md'') [(u ''k'', YStr (u ''v''))]
     = (Inl (ValueError (u ''Invalid YAML frontmatter: could not find expected colon'')),
        note_fs ?bad)"
    by blast
  from 1 2 3 show ?thesis by (simp add: u_def)
qed

section \<open>Merging metadata\<close>


text \<open>
  The theorem at the examples of the specification: a key added, a key overwritten, and a
  text without header.
\<close>




section \<open>Notes by tag\<close>

lemma find_pattern_match:
  "rx_match (find_pattern pf clean_tag) prev s \<noteq> None \<longleftrightarrow>
     (\<exists>post. s = u ''#'' @ clean_tag @ post
        \<and> at_boundary (is_word pf) (Some (of_char CHR ''#'')) (clean_tag @ post)
        \<and> at_boundary (is_word pf) (last_char (Some (of_char CHR ''#'')) clean_tag) post)"
proof (cases s)
  case Nil
  then show ?thesis by (simp add: find_pattern_def lits_def u_def)
next
  case (Cons x xs)
  have "rx_match (map Lit clean_tag @ [WordB (is_word pf)]) (Some (of_char CHR ''#'')) xs \<noteq> None \<longleftrightarrow>
        (prefix clean_tag xs
          \<and> at_boundary (is_word pf) (last_char (Some (of_char CHR ''#'')) clean_tag)
               (drop (length clean_tag) xs))"
    by (simp add: rx_match_lits)
  then have "rx_match (find_pattern pf clean_tag) prev (x # xs) \<noteq> None \<longleftrightarrow>
      (x = of_char CHR ''#'' \<and> at_boundary (is_word pf) (Some (of_char CHR ''#'')) xs
          \<and> prefix clean_tag xs
          \<and> at_boundary (is_word pf) (last_char (Some (of_char CHR ''#'')) clean_tag)
               (drop (length clean_tag) xs))"
    by (auto simp: find_pattern_def lits_def u_def)
  also have "\<dots> \<longleftrightarrow> (\<exists>post. x # xs = u ''#'' @ clean_tag @ post
        \<and> at_boundary (is_word pf) (Some (of_char CHR ''#'')) (clean_tag @ post)
        \<and> at_boundary (is_word pf) (last_char (Some (of_char CHR ''#'')) clean_tag) post)"
    by (auto simp: prefix_def u_def)
  finally show ?thesis using Cons by simp
qed

lemma search_find_pattern:
  "rx_search (find_pattern pf clean_tag) None doc \<noteq> None \<longleftrightarrow> tag_occurs pf clean_tag doc"
  unfolding rx_search_iff find_pattern_match tag_occurs_def by auto

lemma find_scan_eq:
  "find_scan (find_pattern pf clean_tag) files
     = [\<lparr>path = rel_path, name = stem rel_path\<rparr>.
          (rel_path, Some doc) \<leftarrow> files, tag_occurs pf clean_tag doc]"
proof (induction files)
  case Nil
  then show ?case by simp
next
  case (Cons a files)
  obtain rel_path c where a: "a = (rel_path, c)" by (cases a)
  show ?case
  proof (cases c)
    case None
    with Cons a show ?thesis by simp
  next
    case (Some doc)
    have "find_scan (find_pattern pf clean_tag) ((rel_path, Some doc) # files)
        = (if tag_occurs pf clean_tag doc
           then \<lparr>path = rel_path, name = stem rel_path\<rparr> # find_scan (find_pattern pf clean_tag) files
           else find_scan (find_pattern pf clean_tag) files)"
      by (simp only: find_scan.simps search_find_pattern)
    with Cons a Some show ?thesis by (simp del: find_scan.simps)
  qed
qed

text \<open>
  Claim C8. \<open>find_by_tag\<close> strips the leading hash signs of its argument and returns, in scan
  order, exactly the readable notes in which the stripped tag occurs after a hash sign as a
  whole word, with a word boundary on both sides, where a word character is what the
  platform's \<^verbatim>\<open>\w\<close> takes: the ASCII letters, digits and underscore, and beyond ASCII what
  Unicode makes a letter or a digit. A query with a leading hash sign returns what the query
  without it returns, and the query \<^verbatim>\<open>custom\<close> does not find a note that only holds
  \<^verbatim>\<open>#customtag\<close>.
\<close>

theorem find_by_tag_whole_word:
  "find_by_tag pf files t
     = [\<lparr>path = rel_path, name = stem rel_path\<rparr>.
          (rel_path, Some doc) \<leftarrow> files,
          tag_occurs pf (dropWhile (\<lambda>c. c = of_char CHR ''#'') t) doc]
   \<and> find_by_tag pf files (u ''#'' @ t) = find_by_tag pf files t
   \<and> (\<forall>rel_path. \<not> tag_occurs pf (u ''custom'') (u ''Some content with #customtag.'')
        \<and> find_by_tag pf [(rel_path, Some (u ''Some content with #customtag.''))] (u ''custom'') = [])"
proof -
  have a: "find_by_tag pf fs q
     = [\<lparr>path = rel_path, name = stem rel_path\<rparr>.
          (rel_path, Some doc) \<leftarrow> fs,
          tag_occurs pf (dropWhile (\<lambda>c. c = of_char CHR ''#'') q) doc]" for fs q
    by (simp only: find_by_tag_def Let_def find_scan_eq)
  have b: "find_by_tag pf files (u ''#'' @ t) = find_by_tag pf files t"
    by (simp add: find_by_tag_def u_def)
  have "rx_search (find_pattern pf (u ''custom'')) None (u ''Some content with #customtag.'') = None"
    by (simp add: find_pattern_def lits_def u_def at_boundary_def is_word_def)
  then have c: "\<not> tag_occurs pf (u ''custom'') (u ''Some content with #customtag.'')"
    using search_find_pattern[of pf "u ''custom''" "u ''Some content with #customtag.''"] by simp
  have d: "find_by_tag pf [(rel_path, Some (u ''Some content with #customtag.''))] (u ''custom'') = []"
    for rel_path using c by (simp add: a u_def)
  from a b c d show ?thesis by blast
qed

text \<open>
  The theorem at a vault of three notes, queried with a leading hash sign: the tag of the
  first note goes on with the ASCII letters \<^verbatim>\<open>tag\<close>, the tag of the third with the Latin-1
  letter \<^verbatim>\<open>e\<close> with an acute accent, and only the second note is found.
\<close>

theorem find_by_tag_whole_word_witness:
  "find_by_tag plain [(u ''Projects/Project B.md'', Some (u ''Some content with #customtag.'')),
                (u ''Untagged.md'', Some (u ''has #custom; content'')),
                (u ''c.md'', Some (u ''#custom'' @ [233]))] (u ''#custom'')
     = [\<lparr>path = u ''Untagged.md'', name = u ''Untagged''\<rparr>]
   \<and> tag_occurs plain (u ''custom'') (u ''has #custom; content'')
   \<and> \<not> tag_occurs plain (u ''custom'') (u ''#custom'' @ [233])"
proof -
  let ?files = "[(u ''Projects/Project B.md'', Some (u ''Some content with #customtag.'')),
                (u ''Untagged.md'', Some (u ''has #custom; content'')),
                (u ''c.md'', Some (u ''#custom'' @ [233]))]"
  have e: "find_by_tag plain ?files (u ''custom'')
      = [\<lparr>path = u ''Untagged.md'', name = u ''Untagged''\<rparr>]"
    by (simp add: find_by_tag_def find_pattern_def lits_def u_def at_boundary_def is_word_def
          stem_def plain_fields latin1_word_def)
  from find_by_tag_whole_word[of plain ?files "u ''custom''"]
  have h: "find_by_tag plain ?files (u ''#'' @ u ''custom'') = find_by_tag plain ?files (u ''custom'')"
    and c: "find_by_tag plain ?files (u ''custom'')
     = [\<lparr>path = rel_path, name = stem rel_path\<rparr>.
          (rel_path, Some doc) \<leftarrow> ?files,
          tag_occurs plain (dropWhile (\<lambda>c. c = of_char CHR ''#'') (u ''custom'')) doc]"
    by blast+
  have dw: "dropWhile (\<lambda>c. c = of_char CHR ''#'') (u ''custom'') = u ''custom''"
    by (simp add: u_def)
  from c e have "tag_occurs plain (u ''custom'') (u ''has #custom; content'')
      \<and> \<not> tag_occurs plain (u ''custom'') (u ''#custom'' @ [233])"
    unfolding dw by (simp add: u_def stem_def split: if_splits)
  with h e show ?thesis by (simp add: u_def)
qed

section \<open>Backlinks\<close>

lemma star_not_bracket:
  "of_char CHR '']'' \<notin> set a \<Longrightarrow>
     rx_match [Star (\<lambda>c. c \<noteq> of_char CHR '']''), Lit (of_char CHR '']''), Lit (of_char CHR '']'')] pv
         (a @ u '']]'' @ post)
       = Some ([a, u '']'', u '']''], post)"
  by (induction a arbitrary: pv) (auto simp: u_def)

lemma link_pattern_lits:
  "link_pattern note_name
     = map Lit (u ''[['' @ note_name)
         @ [Opt [Lit (of_char CHR ''|''), Plus (\<lambda>c. c \<noteq> of_char CHR '']'')],
            Lit (of_char CHR '']''), Lit (of_char CHR '']'')]"
  by (simp add: link_pattern_def lits_def u_def)

lemma link_match_plain:
  "rx_match (link_pattern note_name) pv (u ''[['' @ note_name @ u '']]'' @ post)
     = Some (map (\<lambda>c. [c]) (u ''[['' @ note_name) @ [[], u '']'', u '']''], post)"
  unfolding link_pattern_lits rx_match_lits by (simp add: u_def)

lemma link_match_alias:
  assumes "alias \<noteq> []" "of_char CHR '']'' \<notin> set alias"
  shows "rx_match (link_pattern note_name) pv
           (u ''[['' @ note_name @ u ''|'' @ alias @ u '']]'' @ post)
     = Some (map (\<lambda>c. [c]) (u ''[['' @ note_name) @ [u ''|'' @ alias, u '']'', u '']''], post)"
proof -
  from assms obtain x a where al: "alias = x # a" "x \<noteq> of_char CHR '']''"
    "of_char CHR '']'' \<notin> set a"
    by (cases "alias") auto
  have "rx_match [Opt [Lit (of_char CHR ''|''), Plus (\<lambda>c. c \<noteq> of_char CHR '']'')],
                  Lit (of_char CHR '']''), Lit (of_char CHR '']'')]
          pv' (u ''|'' @ alias @ u '']]'' @ post) = Some ([u ''|'' @ alias, u '']'', u '']''], post)"
    for pv'
    using al star_not_bracket[OF al(3), of "Some x" post] by (simp add: u_def)
  then show ?thesis unfolding link_pattern_lits rx_match_lits by simp
qed

lemma link_match_sound:
  assumes "rx_match (link_pattern note_name) pv s = Some (caps, rest)"
  shows "is_link note_name (concat caps) \<and> s = concat caps @ rest"
proof -
  let ?g = "[Lit (of_char CHR ''|''), Plus (\<lambda>c. c \<noteq> of_char CHR '']'')]"
  let ?r = "[Lit (of_char CHR '']''), Lit (of_char CHR '']'')]"
  let ?w = "u ''[['' @ note_name"
  from rx_match_sound[OF assms] have s: "s = concat caps @ rest" by simp
  from assms obtain cs where
    m: "rx_match (Opt ?g # ?r) (last_char pv ?w) (drop (length ?w) s) = Some (cs, rest)"
    and caps: "caps = map (\<lambda>c. [c]) ?w @ cs"
    unfolding link_pattern_lits rx_match_lits by (auto split: if_splits)
  have "concat cs = u '']]''
      \<or> (\<exists>a. a \<noteq> [] \<and> of_char CHR '']'' \<notin> set a \<and> concat cs = u ''|'' @ a @ u '']]'')"
  proof (cases "rx_match (?g @ ?r) (last_char pv ?w) (drop (length ?w) s)")
    case None
    with m obtain cs' where "rx_match ?r (last_char pv ?w) (drop (length ?w) s) = Some (cs', rest)"
      "cs = [] # cs'" by auto
    with rx_match_sound[OF this(1)] show ?thesis by (auto simp: list_all2_Cons1 u_def)
  next
    case (Some res)
    obtain cs' t where res: "res = (cs', t)" by (cases res)
    from rx_match_sound[OF Some[unfolded res]] obtain a where
      "cs' = [u ''|'', a, u '']'', u '']'']" "a \<noteq> []" "list_all (\<lambda>c. c \<noteq> of_char CHR '']'') a"
      by (auto simp: list_all2_Cons1 u_def)
    moreover from m Some res have "cs = concat (take (length ?g) cs') # drop (length ?g) cs'"
      by simp
    ultimately show ?thesis by (auto simp: list_all_iff u_def)
  qed
  with caps s show ?thesis by (auto simp: is_link_def concat_map_singleton)
qed

lemma links_to_iff_search:
  "links_to note_name doc \<longleftrightarrow> rx_search (link_pattern note_name) None doc \<noteq> None"
proof
  assume "links_to note_name doc"
  then obtain pre w post where t: "doc = pre @ w @ post" and l: "is_link note_name w"
    by (auto simp: links_to_def)
  from l have "rx_match (link_pattern note_name) (last_char None pre) (w @ post) \<noteq> None"
    unfolding is_link_def
    using link_match_plain[of note_name "last_char None pre" post]
      link_match_alias[of _ note_name "last_char None pre" post]
    by auto
  with t show "rx_search (link_pattern note_name) None doc \<noteq> None"
    unfolding rx_search_iff by blast
next
  assume "rx_search (link_pattern note_name) None doc \<noteq> None"
  then obtain pre post caps rest where "doc = pre @ post"
    "rx_match (link_pattern note_name) (last_char None pre) post = Some (caps, rest)"
    unfolding rx_search_iff by auto
  with link_match_sound[OF this(2)] show "links_to note_name doc"
    unfolding links_to_def by blast
qed

lemma get_backlinks_eq:
  "get_backlinks files note_name
     = [\<lparr>path = rel_path, name = stem rel_path,
          link_count = length (rx_findall (link_pattern note_name) None doc)\<rparr>.
          (rel_path, Some doc) \<leftarrow> files, links_to note_name doc]"
proof (induction files)
  case Nil
  then show ?case by simp
next
  case (Cons a files)
  obtain rel_path c where a: "a = (rel_path, c)" by (cases a)
  show ?case
  proof (cases c)
    case None
    with Cons a show ?thesis by simp
  next
    case (Some doc)
    have "get_backlinks ((rel_path, Some doc) # files) note_name
        = (if links_to note_name doc
           then \<lparr>path = rel_path, name = stem rel_path,
                  link_count = length (rx_findall (link_pattern note_name) None doc)\<rparr>
                # get_backlinks files note_name
           else get_backlinks files note_name)"
      by (simp only: get_backlinks.simps Let_def links_to_iff_search findall_nonempty)
    with Cons a Some show ?thesis by (simp del: get_backlinks.simps)
  qed
qed

text \<open>
  Claim C7. \<open>get_backlinks\<close> returns, in scan order, exactly one entry for each readable note
  whose text contains a link to the note name, with the number of matches in that note. The
  name is matched literally: every match that is counted is the text of a link to exactly
  that name, plain or with an alias, so a longer link target that the name is a prefix of
  is not counted. A note has an entry if and only if it has at least one match.
\<close>

theorem get_backlinks_literal:
  "get_backlinks files note_name
     = [\<lparr>path = rel_path, name = stem rel_path,
          link_count = length (rx_findall (link_pattern note_name) None doc)\<rparr>.
          (rel_path, Some doc) \<leftarrow> files, links_to note_name doc]
   \<and> (\<forall>doc caps. caps \<in> set (rx_findall (link_pattern note_name) None doc)
          \<longrightarrow> is_link note_name (concat caps))
   \<and> (\<forall>doc. links_to note_name doc
          \<longleftrightarrow> 1 \<le> length (rx_findall (link_pattern note_name) None doc))"
proof (intro conjI allI impI)
  show "get_backlinks files note_name
     = [\<lparr>path = rel_path, name = stem rel_path,
          link_count = length (rx_findall (link_pattern note_name) None doc)\<rparr>.
          (rel_path, Some doc) \<leftarrow> files, links_to note_name doc]"
    by (rule get_backlinks_eq)
next
  fix doc caps
  assume "caps \<in> set (rx_findall (link_pattern note_name) None doc)"
  from findall_set[OF this] obtain pv w rest where
    "rx_match (link_pattern note_name) pv w = Some (caps, rest)" by blast
  from link_match_sound[OF this] show "is_link note_name (concat caps)" by simp
next
  fix doc
  have "1 \<le> length (rx_findall (link_pattern note_name) None doc)
      \<longleftrightarrow> rx_findall (link_pattern note_name) None doc \<noteq> []"
    by (cases "rx_findall (link_pattern note_name) None doc") auto
  then show "links_to note_name doc
      \<longleftrightarrow> 1 \<le> length (rx_findall (link_pattern note_name) None doc)"
    by (simp only: links_to_iff_search findall_nonempty)
qed

text \<open>
  The theorem at a vault with a plain link, a link with an alias, links to a longer name and
  to a heading, and a file that cannot be read.
\<close>

theorem get_backlinks_literal_witness:
  "get_backlinks
     [(u ''Projects/Project B.md'', Some (u ''This references [[Project A]] for context.'')),
      (u ''Index.md'', Some (u ''See [[Project A|alias]], [[Project A]] and [[Project AB]].'')),
      (u ''Other.md'', Some (u ''[[Project AB]] and [[Project A#Tasks]] only'')),
      (u ''Broken.md'', None)] (u ''Project A'')
     = [\<lparr>path = u ''Projects/Project B.md'', name = u ''Project B'', link_count = 1\<rparr>,
        \<lparr>path = u ''Index.md'', name = u ''Index'', link_count = 2\<rparr>]
   \<and> links_to (u ''Project A'') (u ''See [[Project A|alias]], [[Project A]] and [[Project AB]].'')
   \<and> \<not> links_to (u ''Project A'') (u ''[[Project AB]] and [[Project A#Tasks]] only'')"
proof -
  let ?n = "u ''Project A''"
  let ?d0 = "u ''This references [[Project A]] for context.''"
  let ?d1 = "u ''See [[Project A|alias]], [[Project A]] and [[Project AB]].''"
  let ?d2 = "u ''[[Project AB]] and [[Project A#Tasks]] only''"
  have a: "length (rx_findall (link_pattern ?n) None ?d0) = 1"
    by (simp add: rx_findall.simps link_pattern_def lits_def u_def last_char_def)
  have b: "length (rx_findall (link_pattern ?n) None ?d1) = 2"
    by (simp add: rx_findall.simps link_pattern_def lits_def u_def last_char_def)
  have c: "rx_findall (link_pattern ?n) None ?d2 = []"
    by (simp add: rx_findall.simps link_pattern_def lits_def u_def last_char_def)
  from a have a2: "rx_findall (link_pattern ?n) None ?d0 \<noteq> []" by auto
  from b have b2: "rx_findall (link_pattern ?n) None ?d1 \<noteq> []" by auto
  note t = get_backlinks_literal[of _ ?n]
  from t b have l1: "links_to ?n ?d1" by simp
  from t c have l2: "\<not> links_to ?n ?d2" by simp
  have "get_backlinks
     [(u ''Projects/Project B.md'', Some ?d0), (u ''Index.md'', Some ?d1),
      (u ''Other.md'', Some ?d2), (u ''Broken.md'', None)] ?n
     = [\<lparr>path = u ''Projects/Project B.md'', name = stem (u ''Projects/Project B.md''), link_count = 1\<rparr>,
        \<lparr>path = u ''Index.md'', name = stem (u ''Index.md''), link_count = 2\<rparr>]"
    using a a2 b b2 c by (simp add: Let_def)
  moreover have "stem (u ''Projects/Project B.md'') = u ''Project B''"
    "stem (u ''Index.md'') = u ''Index''"
    by (simp_all add: stem_def u_def)
  ultimately show ?thesis using l1 l2 by simp
qed

section \<open>The tag index\<close>

lemma scan_tags_foldl:
  "scan_tags pf d files = foldl (\<lambda>d (t, p). tag_step p d t) d (occurrences pf files)"
proof (induction files arbitrary: d)
  case Nil
  then show ?case by (simp add: occurrences_def)
next
  case (Cons a files)
  obtain rel_path c where a: "a = (rel_path, c)" by (cases a)
  show ?case
  proof (cases c)
    case None
    with Cons a show ?thesis by (simp add: occurrences_def)
  next
    case (Some doc)
    have "foldl (\<lambda>d (t, p). tag_step p d t) d (map (\<lambda>t. (t, rel_path)) (note_tags pf doc))
        = foldl (tag_step rel_path) d (note_tags pf doc)"
      by (simp add: foldl_map)
    with Cons a Some show ?thesis by (simp add: occurrences_def)
  qed
qed

lemma first_seen_snoc:
  "first_seen (xs @ [x]) = (if x \<in> set xs then first_seen xs else first_seen xs @ [x])"
  by (simp add: first_seen_def)

lemma set_first_seen: "set (first_seen xs) = set xs"
  by (simp add: first_seen_def)

lemma distinct_first_seen: "distinct (first_seen xs)"
  by (simp add: first_seen_def)

lemma keys_tag_table: "fst ` set (tag_table occ) = fst ` set occ"
proof -
  have "fst ` set (tag_table occ) = set (first_seen (map fst occ))"
    by (simp add: tag_table_def image_image)
  then show ?thesis by (simp add: set_first_seen)
qed

lemma tag_table_snoc:
  "tag_table (occ @ [(t, p)]) = tag_step p (tag_table occ) t"
proof (cases "t \<in> fst ` set occ")
  case False
  then have e: "filter (\<lambda>oc. fst oc = t) occ = []" by (auto simp: filter_empty_conv)
  have k: "t \<notin> fst ` set (tag_table occ)" using False by (simp add: keys_tag_table)
  have m: "map (\<lambda>(k, c, ex). if k = t then (k, c + 1, if length ex < 3 then ex @ [p] else ex)
                else (k, c, ex)) (tag_table occ) = tag_table occ"
    using k by (intro map_idI) (auto simp: rev_image_eqI)
  have "tag_table (occ @ [(t, p)])
      = map (\<lambda>k. (k, length (filter (\<lambda>oc. fst oc = k) (occ @ [(t, p)])),
               take 3 (map snd (filter (\<lambda>oc. fst oc = k) (occ @ [(t, p)])))))
          (first_seen (map fst occ)) @ [(t, 1, [p])]"
    using False e by (simp add: tag_table_def first_seen_snoc)
  also have "map (\<lambda>k. (k, length (filter (\<lambda>oc. fst oc = k) (occ @ [(t, p)])),
               take 3 (map snd (filter (\<lambda>oc. fst oc = k) (occ @ [(t, p)])))))
          (first_seen (map fst occ)) = tag_table occ"
    unfolding tag_table_def using False
    by (intro map_cong refl) (auto simp: set_first_seen)
  finally show ?thesis using k m by (simp add: tag_step_def)
next
  case True
  then have k: "t \<in> fst ` set (tag_table occ)" by (simp add: keys_tag_table)
  have "tag_table (occ @ [(t, p)])
      = map (\<lambda>k. (k, length (filter (\<lambda>oc. fst oc = k) (occ @ [(t, p)])),
               take 3 (map snd (filter (\<lambda>oc. fst oc = k) (occ @ [(t, p)])))))
          (first_seen (map fst occ))"
    using True by (simp add: tag_table_def first_seen_snoc)
  also have "\<dots> = map (\<lambda>(k, c, ex). if k = t then (k, c + 1, if length ex < 3 then ex @ [p] else ex)
                else (k, c, ex)) (tag_table occ)"
    unfolding tag_table_def map_map by (intro map_cong refl) auto
  finally show ?thesis using k by (simp add: tag_step_def)
qed

lemma foldl_tag_step:
  "foldl (\<lambda>d (t, p). tag_step p d t) [] occ = tag_table occ"
proof (induction occ rule: rev_induct)
  case Nil
  then show ?case by (simp add: tag_table_def first_seen_def)
next
  case (snoc x occ)
  obtain t p where "x = (t, p)" by (cases x)
  with snoc show ?case by (simp add: tag_table_snoc)
qed

lemma list_tags_table:
  "list_tags pf files
     = map entry_of (sort_key (\<lambda>(t, c, ex). - int c) (tag_table (occurrences pf files)))"
proof -
  have "entry_of = (\<lambda>(t, c, ex). \<lparr>tag = t, count = c, examples = ex\<rparr>)"
    by (auto simp: entry_of_def fun_eq_iff)
  then show ?thesis by (simp add: list_tags_def scan_tags_foldl foldl_tag_step)
qed

lemma note_tags_words: "t \<in> set (note_tags pf doc) \<Longrightarrow> t \<noteq> [] \<and> list_all (is_word pf) t"
proof -
  assume "t \<in> set (note_tags pf doc)"
  then obtain caps where c: "caps \<in> set (rx_findall (tag_pattern pf) None doc)" and t: "t = caps ! 1"
    by (auto simp: note_tags_def)
  from findall_set[OF c] obtain pv w rest where "rx_match (tag_pattern pf) pv w = Some (caps, rest)"
    by blast
  from rx_match_sound[OF this] t show ?thesis
    by (auto simp: tag_pattern_def lits_def u_def list_all2_Cons1)
qed

lemma count_entry_of: "count (entry_of x) = fst (snd x)" "tag (entry_of x) = fst x"
  "examples (entry_of x) = snd (snd x)"
  by (cases x; simp add: entry_of_def)+

lemma keys_of_tag_table: "map fst (tag_table occ) = first_seen (map fst occ)"
  by (simp add: tag_table_def comp_def)

text \<open>
  What \<open>list_tags\<close> computes: one entry for each distinct tag, with the number of its
  occurrences in the vault and the paths of the notes of its first up to three occurrences
  in scan order; the entries are sorted by descending count, and entries of equal count keep
  the order in which their tags were first encountered.
\<close>

lemma list_tags_counts:
  "list_tags pf files
     = map entry_of (sort_key (\<lambda>(t, c, ex). - int c) (tag_table (occurrences pf files)))
   \<and> sorted (map (\<lambda>e. - int (count e)) (list_tags pf files))
   \<and> (\<forall>k. filter (\<lambda>e. count e = k) (list_tags pf files)
           = map entry_of (filter (\<lambda>(t, c, ex). c = k) (tag_table (occurrences pf files))))
   \<and> distinct (map tag (list_tags pf files))
   \<and> set (map tag (list_tags pf files)) = fst ` set (occurrences pf files)
   \<and> (\<forall>e \<in> set (list_tags pf files).
         tag e \<noteq> [] \<and> list_all (is_word pf) (tag e)
         \<and> count e = length (filter (\<lambda>oc. fst oc = tag e) (occurrences pf files))
         \<and> examples e = take 3 (map snd (filter (\<lambda>oc. fst oc = tag e) (occurrences pf files))))"
proof -
  let ?key = "\<lambda>(t, c, ex). - int c :: int"
  let ?tab = "tag_table (occurrences pf files)"
  have eq: "list_tags pf files = map entry_of (sort_key ?key ?tab)" by (rule list_tags_table)
  have km: "(\<lambda>e. - int (count e)) \<circ> entry_of = ?key"
    by (auto simp: fun_eq_iff count_entry_of)
  have srt: "sorted (map (\<lambda>e. - int (count e)) (list_tags pf files))"
    unfolding eq map_map km by (rule sorted_sort_key)
  have stab: "filter (\<lambda>e. count e = k) (list_tags pf files)
           = map entry_of (filter (\<lambda>(t, c, ex). c = k) ?tab)" for k
  proof -
    have p: "(\<lambda>e. count e = k) \<circ> entry_of = (\<lambda>x. ?key x = - int k)"
      by (auto simp: fun_eq_iff count_entry_of)
    have q: "(\<lambda>(t, c, ex). c = k) = (\<lambda>x. ?key x = - int k)"
      by (auto simp: fun_eq_iff)
    show ?thesis unfolding eq filter_map p q by (simp only: sort_key_stable)
  qed
  have tg: "map tag (list_tags pf files) = map fst (sort_key ?key ?tab)"
    unfolding eq map_map by (intro map_cong refl) (simp add: count_entry_of)
  have dt: "distinct (map fst ?tab)" by (simp add: keys_of_tag_table distinct_first_seen)
  then have "distinct ?tab" "inj_on fst (set ?tab)" by (auto simp: distinct_map)
  then have dist: "distinct (map tag (list_tags pf files))"
    unfolding tg by (simp add: distinct_map)
  have st: "set (map tag (list_tags pf files)) = fst ` set (occurrences pf files)"
    unfolding tg by (simp add: keys_tag_table)
  have ent: "\<forall>e \<in> set (list_tags pf files).
         tag e \<noteq> [] \<and> list_all (is_word pf) (tag e)
         \<and> count e = length (filter (\<lambda>oc. fst oc = tag e) (occurrences pf files))
         \<and> examples e = take 3 (map snd (filter (\<lambda>oc. fst oc = tag e) (occurrences pf files)))"
  proof
    fix e assume "e \<in> set (list_tags pf files)"
    then obtain x where x: "x \<in> set ?tab" and e: "e = entry_of x" by (auto simp: eq)
    from x obtain t where t: "t \<in> fst ` set (occurrences pf files)"
      and xt: "x = (t, length (filter (\<lambda>oc. fst oc = t) (occurrences pf files)),
               take 3 (map snd (filter (\<lambda>oc. fst oc = t) (occurrences pf files))))"
      by (auto simp: tag_table_def set_first_seen)
    from t obtain rel_path doc where "t \<in> set (note_tags pf doc)"
      by (auto simp: occurrences_def split: option.splits)
    from note_tags_words[OF this] e xt show
      "tag e \<noteq> [] \<and> list_all (is_word pf) (tag e)
         \<and> count e = length (filter (\<lambda>oc. fst oc = tag e) (occurrences pf files))
         \<and> examples e = take 3 (map snd (filter (\<lambda>oc. fst oc = tag e) (occurrences pf files)))"
      by (simp add: count_entry_of)
  qed
  from eq srt stab dist st ent show ?thesis by blast
qed

text \<open>
  Claim C6 fails on the code: the examples of a tag are to be distinct note paths (the
  handler documents them as example note paths), and \<open>list_tags\<close> appends the path of the note
  at every occurrence of the tag, with no test for the path being there already. A note that
  holds a tag twice is listed twice among the examples of the tag, on every platform.
\<close>

theorem list_tags_repeats_path:
  "list_tags pf [(u ''a.md'', Some (u ''#todo one #todo two'')), (u ''b.md'', Some (u ''#todo''))]
     = [\<lparr>tag = u ''todo'', count = 3, examples = [u ''a.md'', u ''a.md'', u ''b.md'']\<rparr>]
   \<and> \<not> distinct [u ''a.md'', u ''a.md'', u ''b.md'']"
  by (simp add: list_tags_def note_tags_def rx_findall.simps tag_pattern_def lits_def u_def
        is_word_def last_char_def tag_step_def)

section \<open>Serialising and parsing\<close>














section \<open>Editing a note\<close>










end
